theory Spec2Isabelle
  imports Complex_Main "HOL-Library.Word"
begin

unbundle bit_operations_syntax

text \<open>
  A spell checker keeps its words in \<open>HashMap\<close>, a hash table of string keys with
  separate chaining, four selectable hash codes and one compression function
  (\<open>spellChecker.cpp\<close>). This theory embeds the class: the hash codes, the compression,
  \<open>find\<close>, \<open>put\<close>, \<open>erase\<close>, \<open>resizeTable\<close>, \<open>setHashCodeMethod\<close> and the numbers that
  \<open>printStats\<close> prints, and proves what the specification claims about them, or what
  holds instead.

  A key is a list of characters; the loops of the program count its characters with an
  \<open>int\<close>, which covers the keys of fewer than \<open>2^31\<close> characters. Memory is taken as
  unlimited, and freeing memory is not modelled beyond the array accesses that it makes.
\<close>

section \<open>Machine arithmetic of the program\<close>

text \<open>
  The program computes with the C++ types \<open>int\<close> (32 bits, two's complement),
  \<open>unsigned int\<close> (32 bits), \<open>char\<close> (8 bits, signed, as on the x86 targets the
  program is written for) and, through \<open>pow\<close>, \<open>double\<close>.

  A value of type \<open>int\<close> is modelled by the mathematical integer it denotes, and every
  \<open>int\<close> operation that can leave the range is followed by \<open>int32\<close>, the reduction
  to 32-bit two's complement that the hardware performs. \<open>unsigned int\<close> is \<open>32 word\<close>.
\<close>

definition INT_MIN :: int where
  "INT_MIN = - 2147483648"

definition INT_MAX :: int where
  "INT_MAX = 2147483647"

definition int32 :: "int \<Rightarrow> int" where
  "int32 x = (x + 2147483648) mod 4294967296 - 2147483648"

text \<open>\<open>abs\<close> on \<open>int\<close>: the negation of \<open>INT_MIN\<close> wraps back to \<open>INT_MIN\<close>.\<close>

definition c_abs :: "int \<Rightarrow> int" where
  "c_abs x = int32 (if x < 0 then - x else x)"

text \<open>The operator \<open>%\<close>: the quotient is truncated, so the remainder takes the sign of
  the dividend. The divisor is never zero where this is used.\<close>

definition c_rem :: "int \<Rightarrow> int \<Rightarrow> int" where
  "c_rem a b = (if a < 0 then - ((- a) mod \<bar>b\<bar>) else a mod \<bar>b\<bar>)"

text \<open>The value of a \<open>char\<close> after promotion to \<open>int\<close>.\<close>

definition char_code :: "char \<Rightarrow> int" where
  "char_code c = (let v = of_char c in if v < 128 then v else v - 256)"

text \<open>
  The two hash codes that call \<open>pow\<close> add a \<open>double\<close> to the \<open>int\<close> accumulator and
  convert the result back to \<open>int\<close>. Every \<open>double\<close> that occurs is an integer, or an
  infinity, or a NaN. It is modelled by the exact integer that the floating-point
  operations approximate: below \<open>2^53\<close> in magnitude the operations are exact (\<open>pow\<close>
  is taken to return a power that a \<open>double\<close> can hold as it is), and at or
  above it both the exact integer and its rounded (or infinite) \<open>double\<close> lie outside
  the range of \<open>int\<close>, where the conversion instruction of x86 returns \<open>INT_MIN\<close>
  whatever the operand is. The one NaN of the program is the product \<open>0 * pow(33, j)\<close>
  with \<open>pow(33, j)\<close> infinite, from \<open>j = 203\<close> on; it converts to \<open>INT_MIN\<close> too.
\<close>

definition double_to_int :: "int \<Rightarrow> int" where
  "double_to_int v = (if INT_MIN \<le> v \<and> v \<le> INT_MAX then v else INT_MIN)"

section \<open>Hash codes\<close>

text \<open>\<open>HashMap::hashCodePoly\<close>: the exponent \<open>j\<close> is the number of characters that
  follow the current one.\<close>

fun poly_loop :: "int \<Rightarrow> string \<Rightarrow> int" where
  "poly_loop s [] = s"
| "poly_loop s (c # cs) =
     poly_loop (let j = length cs; coeff = char_code c - 96 in
                if coeff = 0 \<and> 203 \<le> j then INT_MIN
                else double_to_int (s + coeff * 33 ^ j)) cs"

definition hashCodePoly :: "string \<Rightarrow> int" where
  "hashCodePoly key = poly_loop 0 key"

text \<open>\<open>HashMap::hashCodeSimple\<close>.\<close>

fun simple_loop :: "int \<Rightarrow> string \<Rightarrow> int" where
  "simple_loop s [] = s"
| "simple_loop s (c # cs) = simple_loop (int32 (s + (char_code c - 96))) cs"

definition hashCodeSimple :: "string \<Rightarrow> int" where
  "hashCodeSimple key = simple_loop 0 key"

text \<open>\<open>HashMap::hashCodeCyclic\<close>, on \<open>unsigned int\<close>; the result is read as \<open>int\<close>.\<close>

fun cyclic_loop :: "32 word \<Rightarrow> string \<Rightarrow> 32 word" where
  "cyclic_loop s [] = s"
| "cyclic_loop s (c # cs) =
     cyclic_loop ((push_bit 5 s OR drop_bit 27 s) + word_of_int (char_code c)) cs"

definition hashCodeCyclic :: "string \<Rightarrow> int" where
  "hashCodeCyclic key = sint (cyclic_loop 0 key)"

text \<open>\<open>HashMap::hashCodeCustom\<close>: the exponent \<open>j\<close> counts down from the length of the
  key to 1.\<close>

fun custom_loop :: "int \<Rightarrow> string \<Rightarrow> int" where
  "custom_loop s [] = s"
| "custom_loop s (c # cs) =
     custom_loop (double_to_int (s + (char_code c - 92) ^ Suc (length cs))) cs"

definition hashCodeCustom :: "string \<Rightarrow> int" where
  "hashCodeCustom key = custom_loop 0 key"

section \<open>The table\<close>

datatype HCM = poly | cyclic | simple | custom

text \<open>What the program does where C++ gives no result: a division by zero, an access
  outside an array, an access through a null pointer, an array allocation of negative
  length.\<close>

datatype error = DivByZero | OutOfBounds | NullDeref | BadArrayNewLength

text \<open>
  The object: \<open>table\<close> is \<open>None\<close> for the null pointer of the constructor, otherwise the
  allocated array of buckets; \<open>inserts\<close> is the array of counters (empty for the null
  pointer: every access to it is outside the array). The bounds of an array are the
  length of the list, independently of the field \<open>n\<close>.
\<close>

record HashMap =
  HashCodeMethod :: HCM
  n :: int
  table :: "string list list option"
  inserts :: "int list"

definition HashMap_ctor :: HashMap where
  "HashMap_ctor = \<lparr>HashCodeMethod = simple, n = 0, table = None, inserts = []\<rparr>"

definition hashCompress :: "HashMap \<Rightarrow> int \<Rightarrow> error + int" where
  "hashCompress hm code =
     (let r = c_rem (c_abs (int32 (int32 (7 * code) + 103))) 109345121
      in if n hm = 0 then Inl DivByZero else Inr (c_rem r (n hm)))"

definition hash :: "HashMap \<Rightarrow> string \<Rightarrow> error + int" where
  "hash hm key =
     (let code = (case HashCodeMethod hm of
                    simple \<Rightarrow> hashCodeSimple key
                  | poly \<Rightarrow> hashCodePoly key
                  | cyclic \<Rightarrow> hashCodeCyclic key
                  | custom \<Rightarrow> hashCodeCustom key)
      in case hashCompress hm code of
           Inl e \<Rightarrow> Inl e
         | Inr r \<Rightarrow> Inr (c_rem r (n hm)))"

text \<open>Reading \<open>table[i]\<close>.\<close>

definition bucket_at :: "HashMap \<Rightarrow> int \<Rightarrow> error + string list" where
  "bucket_at hm i =
     (case table hm of
        None \<Rightarrow> Inl NullDeref
      | Some bs \<Rightarrow> if 0 \<le> i \<and> i < int (length bs) then Inr (bs ! nat i) else Inl OutOfBounds)"

text \<open>\<open>HashMap::find\<close>.\<close>

definition find_key :: "HashMap \<Rightarrow> string \<Rightarrow> error + int" where
  "find_key hm key =
     (case hash hm key of
        Inl e \<Rightarrow> Inl e
      | Inr bucketIdx \<Rightarrow>
          (case bucket_at hm bucketIdx of
             Inl e \<Rightarrow> Inl e
           | Inr chain \<Rightarrow> if key \<in> set chain then Inr bucketIdx else Inr (- 1)))"

text \<open>Replacing the chain \<open>table[i]\<close>, and adding \<open>d\<close> to the counter \<open>inserts[i]\<close>.\<close>

definition set_bucket :: "HashMap \<Rightarrow> int \<Rightarrow> string list \<Rightarrow> error + HashMap" where
  "set_bucket hm i chain =
     (case table hm of
        None \<Rightarrow> Inl NullDeref
      | Some bs \<Rightarrow> if 0 \<le> i \<and> i < int (length bs)
                  then Inr (hm\<lparr>table := Some (bs[nat i := chain])\<rparr>)
                  else Inl OutOfBounds)"

definition add_inserts :: "HashMap \<Rightarrow> int \<Rightarrow> int \<Rightarrow> error + HashMap" where
  "add_inserts hm i d =
     (if 0 \<le> i \<and> i < int (length (inserts hm))
      then Inr (hm\<lparr>inserts := (inserts hm)[nat i := int32 (inserts hm ! nat i + d)]\<rparr>)
      else Inl OutOfBounds)"

text \<open>\<open>HashMap::put\<close>.\<close>

definition put :: "HashMap \<Rightarrow> string \<Rightarrow> error + HashMap" where
  "put hm key =
     (case find_key hm key of
        Inl e \<Rightarrow> Inl e
      | Inr found \<Rightarrow>
          if found = - 1 then
            (case hash hm key of
               Inl e \<Rightarrow> Inl e
             | Inr bucketIdx \<Rightarrow>
                 (case bucket_at hm bucketIdx of
                    Inl e \<Rightarrow> Inl e
                  | Inr chain \<Rightarrow>
                      (case set_bucket hm bucketIdx (chain @ [key]) of
                         Inl e \<Rightarrow> Inl e
                       | Inr hm' \<Rightarrow> add_inserts hm' bucketIdx 1)))
          else Inr hm)"

text \<open>\<open>HashMap::erase\<close>: the test \<open>if (bucketIdx)\<close> is true for every value but 0.\<close>

definition erase :: "HashMap \<Rightarrow> string \<Rightarrow> error + HashMap" where
  "erase hm key =
     (case find_key hm key of
        Inl e \<Rightarrow> Inl e
      | Inr bucketIdx \<Rightarrow>
          if bucketIdx \<noteq> 0 then
            (case bucket_at hm bucketIdx of
               Inl e \<Rightarrow> Inl e
             | Inr chain \<Rightarrow>
                 (case set_bucket hm bucketIdx (removeAll key chain) of
                    Inl e \<Rightarrow> Inl e
                  | Inr hm' \<Rightarrow> add_inserts hm' bucketIdx (- 1)))
          else Inr hm)"

text \<open>\<open>HashMap::resizeTable\<close>. The re-insertion walks \<open>oldTable[0]\<close> to
  \<open>oldTable[old_n - 1]\<close> and puts every key of each chain into the new table.\<close>

fun put_all :: "HashMap \<Rightarrow> string list \<Rightarrow> error + HashMap" where
  "put_all hm [] = Inr hm"
| "put_all hm (k # ks) = (case put hm k of Inl e \<Rightarrow> Inl e | Inr hm' \<Rightarrow> put_all hm' ks)"

fun reinsert :: "HashMap \<Rightarrow> string list list \<Rightarrow> nat \<Rightarrow> error + HashMap" where
  "reinsert hm oldTable 0 = Inr hm"
| "reinsert hm [] (Suc k) = Inl OutOfBounds"
| "reinsert hm (curList # rest) (Suc k) =
     (case put_all hm curList of Inl e \<Rightarrow> Inl e | Inr hm' \<Rightarrow> reinsert hm' rest k)"

text \<open>\<open>HashMap::deleteTable\<close> frees the buckets \<open>t[0]\<close> to \<open>t[s - 1]\<close>; a null \<open>t\<close> and
  a zero \<open>s\<close> are replaced by the fields of the object. Only the accesses matter here.\<close>

definition deleteTable :: "HashMap \<Rightarrow> string list list option \<Rightarrow> int \<Rightarrow> error + unit" where
  "deleteTable hm t s =
     (let t' = (case t of None \<Rightarrow> table hm | Some bs \<Rightarrow> Some bs);
          s' = (if s = 0 then n hm else s)
      in case t' of
           None \<Rightarrow> if 0 < s' then Inl NullDeref else Inr ()
         | Some bs \<Rightarrow> if s' \<le> int (length bs) then Inr () else Inl OutOfBounds)"

definition resizeTable :: "HashMap \<Rightarrow> int \<Rightarrow> error + HashMap" where
  "resizeTable hm s =
     (if s < 0 then Inl BadArrayNewLength
      else
        let oldTable = table hm;
            old_n = n hm;
            hm1 = hm\<lparr>n := s, table := Some (replicate (nat s) []),
                     inserts := replicate (nat s) 0\<rparr>
        in case oldTable of
             None \<Rightarrow> Inr hm1
           | Some old \<Rightarrow>
               (case reinsert hm1 old (nat old_n) of
                  Inl e \<Rightarrow> Inl e
                | Inr hm2 \<Rightarrow>
                    (case deleteTable hm2 (Some old) old_n of
                       Inl e \<Rightarrow> Inl e
                     | Inr u \<Rightarrow> Inr hm2)))"

text \<open>\<open>HashMap::size\<close>.\<close>

definition size_table :: "HashMap \<Rightarrow> int" where
  "size_table hm = n hm"

text \<open>\<open>HashMap::setHashCodeMethod\<close>: four tests in sequence.\<close>

definition setHashCodeMethod :: "HashMap \<Rightarrow> string \<Rightarrow> HashMap" where
  "setHashCodeMethod hm m =
     (let hm1 = (if m = ''poly'' then hm\<lparr>HashCodeMethod := poly\<rparr> else hm);
          hm2 = (if m = ''simple'' then hm1\<lparr>HashCodeMethod := simple\<rparr> else hm1);
          hm3 = (if m = ''cyclic'' then hm2\<lparr>HashCodeMethod := cyclic\<rparr> else hm2)
      in if m = ''custom'' then hm3\<lparr>HashCodeMethod := custom\<rparr> else hm3)"

section \<open>Statistics\<close>

text \<open>
  \<open>HashMap::printStats\<close> prints five numbers; the model returns them. \<open>std::accumulate\<close>
  adds in \<open>int\<close>; \<open>std::max_element\<close> keeps the first largest element and, on an empty
  range, returns the end of the range, which the program then dereferences. The load
  factor is a division of two \<open>double\<close>s; the model keeps the exact quotient, of which
  the program prints the rounding.
\<close>

record Stats =
  stat_size :: int
  stat_inserts :: int
  stat_load_factor :: real
  stat_collisions :: int
  stat_max_bucket :: int

fun accumulate :: "int list \<Rightarrow> int \<Rightarrow> int" where
  "accumulate [] init = init"
| "accumulate (x # xs) init = accumulate xs (int32 (init + x))"

fun max_element :: "int \<Rightarrow> int list \<Rightarrow> int" where
  "max_element largest [] = largest"
| "max_element largest (x # xs) = max_element (if largest < x then x else largest) xs"

definition printStats :: "HashMap \<Rightarrow> error + Stats" where
  "printStats hm =
     (if n hm < 0 \<or> int (length (inserts hm)) < n hm then Inl OutOfBounds
      else
        let counts = take (nat (n hm)) (inserts hm);
            sumIns = accumulate counts 0;
            collisions = map (\<lambda>c. max (int32 (c - 1)) 0) counts;
            sumColl = accumulate collisions 0
        in case counts of
             [] \<Rightarrow> Inl OutOfBounds
           | c # cs \<Rightarrow>
               Inr \<lparr>stat_size = n hm, stat_inserts = sumIns,
                    stat_load_factor = real_of_int sumIns / real_of_int (n hm),
                    stat_collisions = sumColl,
                    stat_max_bucket = max_element c cs\<rparr>)"

section \<open>Notions used in the statements\<close>

text \<open>The buckets of a table, and the tables whose arrays have the length that the
  field \<open>n\<close> announces.\<close>

definition buckets :: "HashMap \<Rightarrow> string list list" where
  "buckets hm = (case table hm of None \<Rightarrow> [] | Some bs \<Rightarrow> bs)"

definition well_formed :: "HashMap \<Rightarrow> bool" where
  "well_formed hm \<longleftrightarrow>
     (case table hm of None \<Rightarrow> False | Some bs \<Rightarrow> int (length bs) = n hm)
     \<and> int (length (inserts hm)) = n hm"

text \<open>Every stored key sits in the chain that its hash selects now.\<close>

definition placed :: "HashMap \<Rightarrow> bool" where
  "placed hm \<longleftrightarrow>
     (\<forall>(i, chain) \<in> set (enumerate 0 (buckets hm)). \<forall>k \<in> set chain. hash hm k = Inr (int i))"

text \<open>The tables that the operations build from a new object when the hash code method
  is changed only together with a resize, which rehashes every key.\<close>

inductive reachable :: "HashMap \<Rightarrow> bool" where
  reachable_ctor: "reachable HashMap_ctor"
| reachable_put: "reachable hm \<Longrightarrow> put hm key = Inr hm' \<Longrightarrow> reachable hm'"
| reachable_erase: "reachable hm \<Longrightarrow> erase hm key = Inr hm' \<Longrightarrow> reachable hm'"
| reachable_rehash:
    "reachable hm \<Longrightarrow> resizeTable (setHashCodeMethod hm m) s = Inr hm' \<Longrightarrow> reachable hm'"

text \<open>The sums that the specification gives for the Simple and the Polynomial hash
  code, as exact integers.\<close>

fun simple_sum :: "string \<Rightarrow> int" where
  "simple_sum [] = 0"
| "simple_sum (c # cs) = (char_code c - 96) + simple_sum cs"

fun poly_value :: "string \<Rightarrow> int" where
  "poly_value [] = 0"
| "poly_value (c # cs) = (char_code c - 96) * 33 ^ length cs + poly_value cs"

text \<open>The keys on which \<open>hashCodePoly\<close>, started with the accumulator \<open>s\<close>, never
  leaves the range of \<open>int\<close> and never multiplies zero by an infinite power.\<close>

fun poly_in_range :: "int \<Rightarrow> string \<Rightarrow> bool" where
  "poly_in_range s [] = True"
| "poly_in_range s (c # cs) =
     (let v = s + (char_code c - 96) * 33 ^ length cs
      in INT_MIN \<le> v \<and> v \<le> INT_MAX \<and> \<not> (char_code c = 96 \<and> 203 \<le> length cs)
         \<and> poly_in_range v cs)"

text \<open>The sum \<open>33^0 + ... + 33^(k-1)\<close>, which bounds the polynomial of a key of \<open>k\<close>
  letters.\<close>

fun geometric :: "nat \<Rightarrow> int" where
  "geometric 0 = 0"
| "geometric (Suc k) = 33 ^ k + geometric k"

text \<open>The invariant of the table: every key sits in the chain that its hash selects,
  and no chain holds a key twice.\<close>

definition sound :: "HashMap \<Rightarrow> bool" where
  "sound hm \<longleftrightarrow> placed hm \<and> (\<forall>chain \<in> set (buckets hm). distinct chain)"

text \<open>The hash code that \<open>hash\<close> compresses: the one of the current method.\<close>

definition hashCode :: "HashMap \<Rightarrow> string \<Rightarrow> int" where
  "hashCode hm key =
     (case HashCodeMethod hm of
        simple \<Rightarrow> hashCodeSimple key
      | poly \<Rightarrow> hashCodePoly key
      | cyclic \<Rightarrow> hashCodeCyclic key
      | custom \<Rightarrow> hashCodeCustom key)"

text \<open>The counters of a table count the keys of the chains (in \<open>int\<close>).\<close>

definition counted :: "HashMap \<Rightarrow> bool" where
  "counted hm \<longleftrightarrow> inserts hm = map (\<lambda>chain. int32 (int (length chain))) (buckets hm)"

text \<open>The tables that any sequence of the operations builds from a new object.\<close>

inductive built :: "HashMap \<Rightarrow> bool" where
  built_ctor: "built HashMap_ctor"
| built_put: "built hm \<Longrightarrow> put hm key = Inr hm' \<Longrightarrow> built hm'"
| built_erase: "built hm \<Longrightarrow> erase hm key = Inr hm' \<Longrightarrow> built hm'"
| built_resize: "built hm \<Longrightarrow> resizeTable hm s = Inr hm' \<Longrightarrow> built hm'"
| built_method: "built hm \<Longrightarrow> built (setHashCodeMethod hm m)"

text \<open>What holds of them whatever the hash code method was at each step: the counters
  count the keys of the chains, no chain holds a key twice, and the array of buckets
  has the length \<open>n\<close>.\<close>

definition tidy :: "HashMap \<Rightarrow> bool" where
  "tidy hm \<longleftrightarrow>
     counted hm \<and> (\<forall>chain \<in> set (buckets hm). distinct chain)
     \<and> (case table hm of None \<Rightarrow> n hm = 0 | Some bs \<Rightarrow> int (length bs) = n hm)"

text \<open>The report of \<open>printStats\<close> on the table that a sequence of operations leaves, and
  the keys \<open>""\<close>, \<open>"a"\<close>, \<open>"aa"\<close>, ... of the lengths below \<open>m\<close>, which differ from one
  another.\<close>

definition stats_of :: "error + HashMap \<Rightarrow> error + Stats" where
  "stats_of r = (case r of Inl e \<Rightarrow> Inl e | Inr hm \<Rightarrow> printStats hm)"

definition a_keys :: "nat \<Rightarrow> string list" where
  "a_keys m = map (\<lambda>k. replicate k (CHR ''a'')) [0..<m]"
section \<open>Arithmetic lemmas\<close>

lemma int32_id: "INT_MIN \<le> x \<Longrightarrow> x \<le> INT_MAX \<Longrightarrow> int32 x = x"
  by (simp add: int32_def INT_MIN_def INT_MAX_def)

lemma int32_range: "INT_MIN \<le> int32 x \<and> int32 x \<le> INT_MAX"
  unfolding int32_def INT_MIN_def INT_MAX_def
  using pos_mod_bound [of 4294967296 "x + 2147483648"]
    pos_mod_sign [of 4294967296 "x + 2147483648"]
  by linarith

lemma int32_add_left: "int32 (int32 a + b) = int32 (a + b)"
proof -
  have "(int32 a + b + 2147483648) mod 4294967296 = (a + b + 2147483648) mod 4294967296"
    unfolding int32_def by (simp add: mod_simps algebra_simps)
  then show ?thesis by (simp add: int32_def)
qed

lemma c_abs_eq: "INT_MIN < x \<Longrightarrow> x \<le> INT_MAX \<Longrightarrow> c_abs x = \<bar>x\<bar>"
  by (simp add: c_abs_def int32_def INT_MIN_def INT_MAX_def)

lemma c_rem_nonneg: "0 \<le> a \<Longrightarrow> c_rem a b = a mod \<bar>b\<bar>"
  by (simp add: c_rem_def)

lemma char_code_range: "- 128 \<le> char_code c \<and> char_code c \<le> 127"
proof -
  have "(of_char c :: int) < 256"
    using of_char_mod_256 [of c, where ?'a = int] pos_mod_bound [of 256 "of_char c :: int"]
    by simp
  moreover have "0 \<le> (of_char c :: int)"
    by (simp add: of_char_def)
  ultimately show ?thesis by (simp add: char_code_def Let_def)
qed

section \<open>Lookup, insertion and removal\<close>

lemma hash_cong:
  "HashCodeMethod a = HashCodeMethod b \<Longrightarrow> n a = n b \<Longrightarrow> hash a key = hash b key"
  by (simp add: hash_def hashCompress_def)

lemma find_key_Inr:
  "find_key hm key = Inr r \<Longrightarrow>
     \<exists>i bs. hash hm key = Inr i \<and> table hm = Some bs \<and> 0 \<le> i \<and> i < int (length bs)
       \<and> r = (if key \<in> set (bs ! nat i) then i else - 1)"
  by (auto simp: find_key_def bucket_at_def split: sum.splits option.splits if_splits)

lemma find_key_eq:
  "hash hm key = Inr i \<Longrightarrow> table hm = Some bs \<Longrightarrow> 0 \<le> i \<Longrightarrow> i < int (length bs) \<Longrightarrow>
     find_key hm key = Inr (if key \<in> set (bs ! nat i) then i else - 1)"
  by (simp add: find_key_def bucket_at_def)

lemma put_Inr:
  assumes "put hm key = Inr hm'"
  shows "\<exists>i bs. hash hm key = Inr i \<and> table hm = Some bs \<and> 0 \<le> i \<and> i < int (length bs)
       \<and> (if key \<in> set (bs ! nat i) then hm' = hm
          else i < int (length (inserts hm))
             \<and> hm' = hm\<lparr>table := Some (bs[nat i := bs ! nat i @ [key]]),
                        inserts := (inserts hm)[nat i := int32 (inserts hm ! nat i + 1)]\<rparr>)"
proof -
  from assms obtain r where r: "find_key hm key = Inr r"
    by (cases "find_key hm key") (simp_all add: put_def)
  from find_key_Inr [OF r] obtain i bs where h: "hash hm key = Inr i" "table hm = Some bs"
    "0 \<le> i" "i < int (length bs)" "r = (if key \<in> set (bs ! nat i) then i else - 1)"
    by blast
  show ?thesis
  proof (cases "key \<in> set (bs ! nat i)")
    case True
    with h r assms have "hm' = hm" by (simp add: put_def)
    with h True show ?thesis by simp
  next
    case False
    with h r assms have
      "add_inserts (hm\<lparr>table := Some (bs[nat i := bs ! nat i @ [key]])\<rparr>) i 1 = Inr hm'"
      by (simp add: put_def bucket_at_def set_bucket_def)
    then have "i < int (length (inserts hm))
             \<and> hm' = hm\<lparr>table := Some (bs[nat i := bs ! nat i @ [key]]),
                        inserts := (inserts hm)[nat i := int32 (inserts hm ! nat i + 1)]\<rparr>"
      by (auto simp: add_inserts_def split: if_splits)
    with h False show ?thesis by simp
  qed
qed

subsection \<open>Removal of a key that is not there\<close>

text \<open>
  C1. The claim: for a key absent from the table, \<open>erase\<close> changes nothing and accesses no
  bucket outside the table. The code: \<open>find\<close> answers \<open>-1\<close> for an absent key, the test
  \<open>if (bucketIdx)\<close> of \<open>erase\<close> takes \<open>-1\<close> for true, and \<open>erase\<close> goes on to
  \<open>table[-1]\<close>. So whenever \<open>find\<close> answers \<open>-1\<close>, \<open>erase\<close> ends in an access outside
  the array of buckets.
\<close>

theorem erase_absent_out_of_bounds:
  "find_key hm key = Inr (- 1) \<Longrightarrow> erase hm key = Inl OutOfBounds"
proof -
  assume a: "find_key hm key = Inr (- 1)"
  from find_key_Inr [OF a] obtain bs where "table hm = Some bs" by blast
  with a show ?thesis by (simp add: erase_def bucket_at_def)
qed

theorem erase_absent_out_of_bounds_witness:
  "find_key \<lparr>HashCodeMethod = simple, n = 7, table = Some [[], [], [], [], [], [], []],
             inserts = [0, 0, 0, 0, 0, 0, 0]\<rparr> ''cat'' = Inr (- 1)
   \<and> erase \<lparr>HashCodeMethod = simple, n = 7, table = Some [[], [], [], [], [], [], []],
             inserts = [0, 0, 0, 0, 0, 0, 0]\<rparr> ''cat'' = Inl OutOfBounds"
proof -
  have h: "find_key \<lparr>HashCodeMethod = simple, n = 7, table = Some [[], [], [], [], [], [], []],
             inserts = [0, 0, 0, 0, 0, 0, 0]\<rparr> ''cat'' = Inr (- 1)"
    by code_simp
  from h erase_absent_out_of_bounds [OF h] show ?thesis by simp
qed

subsection \<open>Removal of a key of bucket 0\<close>

text \<open>
  C2. The claim: after \<open>put(k)\<close>, \<open>find(k)\<close> reports \<open>k\<close> present, and after a following
  \<open>erase(k)\<close> it reports \<open>k\<close> absent, also when the bucket of \<open>k\<close> is bucket 0. The
  code: when \<open>find\<close> answers 0, the test \<open>if (bucketIdx)\<close> of \<open>erase\<close> fails and \<open>erase\<close>
  returns without touching the table, so the key stays and \<open>find\<close> answers 0 again.
\<close>

theorem erase_bucket_zero_keeps_key:
  "find_key hm key = Inr 0 \<Longrightarrow>
     erase hm key = Inr hm \<and> (case erase hm key of Inl e \<Rightarrow> Inl e | Inr hm' \<Rightarrow> find_key hm' key) = Inr 0"
  by (simp add: erase_def)

theorem erase_bucket_zero_keeps_key_witness:
  "put \<lparr>HashCodeMethod = simple, n = 5, table = Some [[], [], [], [], []],
        inserts = [0, 0, 0, 0, 0]\<rparr> ''dog''
     = Inr \<lparr>HashCodeMethod = simple, n = 5, table = Some [[''dog''], [], [], [], []],
            inserts = [1, 0, 0, 0, 0]\<rparr>
   \<and> find_key \<lparr>HashCodeMethod = simple, n = 5, table = Some [[''dog''], [], [], [], []],
               inserts = [1, 0, 0, 0, 0]\<rparr> ''dog'' = Inr 0
   \<and> erase \<lparr>HashCodeMethod = simple, n = 5, table = Some [[''dog''], [], [], [], []],
            inserts = [1, 0, 0, 0, 0]\<rparr> ''dog''
     = Inr \<lparr>HashCodeMethod = simple, n = 5, table = Some [[''dog''], [], [], [], []],
            inserts = [1, 0, 0, 0, 0]\<rparr>"
proof -
  have p: "put \<lparr>HashCodeMethod = simple, n = 5, table = Some [[], [], [], [], []],
        inserts = [0, 0, 0, 0, 0]\<rparr> ''dog''
     = Inr \<lparr>HashCodeMethod = simple, n = 5, table = Some [[''dog''], [], [], [], []],
            inserts = [1, 0, 0, 0, 0]\<rparr>"
    by code_simp
  have h: "find_key \<lparr>HashCodeMethod = simple, n = 5, table = Some [[''dog''], [], [], [], []],
               inserts = [1, 0, 0, 0, 0]\<rparr> ''dog'' = Inr 0"
    by code_simp
  from p h erase_bucket_zero_keeps_key [OF h] show ?thesis by simp
qed

subsection \<open>What insertion and removal achieve\<close>

text \<open>After a successful \<open>put\<close> the key is found; \<open>erase\<close> removes a key found in a
  bucket other than bucket 0.\<close>

lemma put_then_find:
  assumes "put hm key = Inr hm'"
  shows "\<exists>i. find_key hm' key = Inr i \<and> 0 \<le> i \<and> key \<in> set (buckets hm' ! nat i)"
proof -
  from put_Inr [OF assms] obtain i bs where h: "hash hm key = Inr i" "table hm = Some bs"
    "0 \<le> i" "i < int (length bs)"
    and c: "if key \<in> set (bs ! nat i) then hm' = hm
          else i < int (length (inserts hm))
             \<and> hm' = hm\<lparr>table := Some (bs[nat i := bs ! nat i @ [key]]),
                        inserts := (inserts hm)[nat i := int32 (inserts hm ! nat i + 1)]\<rparr>"
    by blast
  show ?thesis
  proof (cases "key \<in> set (bs ! nat i)")
    case True
    with c h find_key_eq [OF h] show ?thesis by (simp add: buckets_def)
  next
    case False
    with c have hm': "hm' = hm\<lparr>table := Some (bs[nat i := bs ! nat i @ [key]]),
                        inserts := (inserts hm)[nat i := int32 (inserts hm ! nat i + 1)]\<rparr>"
      by simp
    have "hash hm' key = Inr i" using h(1) hash_cong [of hm' hm key] by (simp add: hm')
    moreover have "table hm' = Some (bs[nat i := bs ! nat i @ [key]])" by (simp add: hm')
    ultimately have "find_key hm' key = Inr i"
      using h by (simp add: find_key_def bucket_at_def)
    moreover have "key \<in> set (buckets hm' ! nat i)" using h by (simp add: hm' buckets_def)
    ultimately show ?thesis using h(3) by simp
  qed
qed

lemma erase_removes_key:
  assumes "well_formed hm" "find_key hm key = Inr i" "0 < i"
  shows "\<exists>hm'. erase hm key = Inr hm' \<and> find_key hm' key = Inr (- 1)"
proof -
  from assms(1) obtain bs where bs: "table hm = Some bs" "int (length bs) = n hm"
    "int (length (inserts hm)) = n hm"
    by (auto simp: well_formed_def split: option.splits)
  from find_key_Inr [OF assms(2)] bs assms(3)
  have h: "hash hm key = Inr i" "i < int (length bs)"
    by (auto split: if_splits)
  let ?hm' = "hm\<lparr>table := Some (bs[nat i := removeAll key (bs ! nat i)]),
                 inserts := (inserts hm)[nat i := int32 (inserts hm ! nat i + - 1)]\<rparr>"
  from assms bs h have e: "erase hm key = Inr ?hm'"
    by (simp add: erase_def bucket_at_def set_bucket_def add_inserts_def)
  have "hash ?hm' key = Inr i" using h(1) hash_cong [of ?hm' hm key] by simp
  then have "find_key ?hm' key = Inr (- 1)"
    using h assms(3) by (simp add: find_key_def bucket_at_def)
  with e show ?thesis by simp
qed

section \<open>The Simple hash code\<close>

lemma simple_sum_sum_list: "simple_sum key = (\<Sum>c\<leftarrow>key. char_code c - 96)"
  by (induction key) simp_all

lemma simple_loop_int32: "simple_loop (int32 y) key = int32 (y + simple_sum key)"
proof (induction key arbitrary: y)
  case Nil
  then show ?case by simp
next
  case (Cons c cs)
  have "simple_loop (int32 y) (c # cs) = simple_loop (int32 (y + (char_code c - 96))) cs"
    by (simp add: int32_add_left)
  also have "\<dots> = int32 (y + (char_code c - 96) + simple_sum cs)"
    by (rule Cons.IH)
  finally show ?case by (simp add: add.assoc)
qed

lemma hashCodeSimple_int32: "hashCodeSimple key = int32 (simple_sum key)"
  using simple_loop_int32 [of 0 key] by (simp add: hashCodeSimple_def int32_def)

lemma simple_sum_replicate: "simple_sum (replicate k c) = int k * (char_code c - 96)"
  by (induction k) (simp_all add: algebra_simps)

lemma simple_sum_bounds:
  "- 224 * int (length key) \<le> simple_sum key \<and> simple_sum key \<le> 31 * int (length key)"
proof (induction key)
  case Nil
  then show ?case by simp
next
  case (Cons c cs)
  with char_code_range [of c] show ?case by simp
qed

text \<open>
  C7, as amended. The Simple hash code is the sum over the characters of the key of
  \<open>char_code - 96\<close>, reduced to 32-bit two's complement as \<open>int\<close> addition reduces it.
  It is the sum itself whenever the sum lies in the range of \<open>int\<close>, which holds for
  every key of at most 9586980 characters. The key \<open>cat\<close> has the code 24 and the empty
  key has the code 0.
\<close>

theorem hashCodeSimple_sum:
  "hashCodeSimple key = int32 (\<Sum>c\<leftarrow>key. char_code c - 96)
   \<and> (INT_MIN \<le> (\<Sum>c\<leftarrow>key. char_code c - 96) \<and> (\<Sum>c\<leftarrow>key. char_code c - 96) \<le> INT_MAX
        \<longrightarrow> hashCodeSimple key = (\<Sum>c\<leftarrow>key. char_code c - 96))
   \<and> (length key \<le> 9586980 \<longrightarrow> hashCodeSimple key = (\<Sum>c\<leftarrow>key. char_code c - 96))
   \<and> hashCodeSimple ''cat'' = 24
   \<and> hashCodeSimple [] = 0"
proof -
  have a: "hashCodeSimple key = int32 (\<Sum>c\<leftarrow>key. char_code c - 96)"
    by (simp add: hashCodeSimple_int32 simple_sum_sum_list)
  have b: "hashCodeSimple key = (\<Sum>c\<leftarrow>key. char_code c - 96)"
    if "INT_MIN \<le> (\<Sum>c\<leftarrow>key. char_code c - 96)" "(\<Sum>c\<leftarrow>key. char_code c - 96) \<le> INT_MAX"
    using that a by (simp add: int32_id)
  have c: "hashCodeSimple key = (\<Sum>c\<leftarrow>key. char_code c - 96)" if "length key \<le> 9586980"
  proof -
    from that have "int (length key) \<le> 9586980" by simp
    with simple_sum_bounds [of key]
    have "INT_MIN \<le> simple_sum key \<and> simple_sum key \<le> INT_MAX"
      by (simp add: INT_MIN_def INT_MAX_def)
    then show ?thesis using b by (simp add: simple_sum_sum_list)
  qed
  have d: "hashCodeSimple ''cat'' = 24" by code_simp
  have e: "hashCodeSimple [] = 0" by (simp add: hashCodeSimple_def)
  from a b c d e show ?thesis by blast
qed

theorem hashCodeSimple_sum_witness:
  "hashCodeSimple ''dog'' = int32 26 \<and> hashCodeSimple ''dog'' = 26
   \<and> length ''dog'' \<le> (9586980::nat) \<and> INT_MIN \<le> 26 \<and> 26 \<le> INT_MAX"
proof -
  have s: "(\<Sum>c\<leftarrow>''dog''. char_code c - 96) = 26" by (simp add: char_code_def)
  have l: "length ''dog'' \<le> (9586980::nat)" by simp
  have r: "INT_MIN \<le> 26 \<and> 26 \<le> INT_MAX" by (simp add: INT_MIN_def INT_MAX_def)
  from hashCodeSimple_sum [of "''dog''"] s l r show ?thesis by simp
qed

text \<open>
  The claim as it stands, with the sum as an exact integer for every key, fails on a key
  of 82595525 letters \<open>z\<close>: the sum is 2147483650, beyond the largest \<open>int\<close>, and the
  accumulator has wrapped to a negative code.
\<close>

theorem hashCodeSimple_overflow:
  "hashCodeSimple (replicate 82595525 (CHR ''z'')) = - 2147483646
   \<and> simple_sum (replicate 82595525 (CHR ''z'')) = 2147483650"
  unfolding hashCodeSimple_int32 simple_sum_replicate
  by (simp add: char_code_def int32_def)

section \<open>The Polynomial hash code\<close>

lemma poly_value_sum:
  "poly_value key = (\<Sum>i<length key. (char_code (key ! i) - 96) * 33 ^ (length key - 1 - i))"
proof (induction key)
  case Nil
  then show ?case by simp
next
  case (Cons c cs)
  have "(\<Sum>i<length (c # cs). (char_code ((c # cs) ! i) - 96) * 33 ^ (length (c # cs) - 1 - i))
      = (char_code c - 96) * 33 ^ length cs
        + (\<Sum>i<length cs. (char_code (cs ! i) - 96) * 33 ^ (length cs - 1 - i))"
    by (simp add: sum.lessThan_Suc_shift del: sum.lessThan_Suc)
  with Cons show ?case by simp
qed

lemma poly_loop_exact: "poly_in_range s key \<Longrightarrow> poly_loop s key = s + poly_value key"
proof (induction key arbitrary: s)
  case Nil
  then show ?case by simp
next
  case (Cons c cs)
  let ?v = "s + (char_code c - 96) * 33 ^ length cs"
  from Cons.prems have r: "INT_MIN \<le> ?v" "?v \<le> INT_MAX"
    and z: "\<not> (char_code c = 96 \<and> 203 \<le> length cs)" and p: "poly_in_range ?v cs"
    by (simp_all add: Let_def)
  from r z have "poly_loop s (c # cs) = poly_loop ?v cs"
    by (auto simp: Let_def double_to_int_def)
  also have "\<dots> = ?v + poly_value cs" using p by (rule Cons.IH)
  finally show ?case by simp
qed


lemma geometric_mono: "k \<le> m \<Longrightarrow> geometric k \<le> geometric m"
proof (induction m)
  case 0
  then show ?case by simp
next
  case (Suc m)
  have p: "0 \<le> (33::int) ^ m" by simp
  show ?case
  proof (cases "k = Suc m")
    case True
    then show ?thesis by simp
  next
    case False
    with Suc.prems have "k \<le> m" by simp
    with Suc.IH have "geometric k \<le> geometric m" by simp
    moreover have "geometric (Suc m) = 33 ^ m + geometric m" by simp
    ultimately show ?thesis using p by linarith
  qed
qed

lemma poly_in_range_letters:
  assumes "\<forall>c \<in> set key. 1 \<le> char_code c - 96 \<and> char_code c - 96 \<le> 26"
    and "0 \<le> s" and "s + 26 * geometric (length key) \<le> INT_MAX"
  shows "poly_in_range s key"
  using assms
proof (induction key arbitrary: s)
  case Nil
  then show ?case by simp
next
  case (Cons c cs)
  let ?k = "char_code c - 96"
  let ?v = "s + ?k * 33 ^ length cs"
  from Cons.prems(1) have k: "1 \<le> ?k" "?k \<le> 26" by simp_all
  have p: "0 \<le> (33::int) ^ length cs" by simp
  from k p have lo: "0 \<le> ?k * 33 ^ length cs" by simp
  from k p have hi: "?k * 33 ^ length cs \<le> 26 * 33 ^ length cs"
    by (simp add: mult_right_mono)
  have g: "0 \<le> geometric (length cs)"
    using geometric_mono [of 0 "length cs"] by simp
  from lo Cons.prems(2) have v0: "0 \<le> ?v" by linarith
  have "geometric (length (c # cs)) = 33 ^ length cs + geometric (length cs)" by simp
  with hi Cons.prems(3) have v1: "?v + 26 * geometric (length cs) \<le> INT_MAX"
    by (simp only: distrib_left)
  with g have v2: "?v \<le> INT_MAX" by linarith
  from v0 have v3: "INT_MIN \<le> ?v" by (simp add: INT_MIN_def)
  have "poly_in_range ?v cs"
    using Cons.prems(1) v0 v1 by (intro Cons.IH) simp_all
  with v2 v3 k show ?case by (simp add: Let_def)
qed

lemma geometric_6: "geometric 6 = 40358374"
  by (simp add: eval_nat_numeral)

lemma poly_in_range_short:
  assumes "length key \<le> 6" and "\<forall>c \<in> set key. 1 \<le> char_code c - 96 \<and> char_code c - 96 \<le> 26"
  shows "poly_in_range 0 key"
proof -
  from geometric_mono [OF assms(1)] have "geometric (length key) \<le> 40358374"
    by (simp add: geometric_6)
  then have "0 + 26 * geometric (length key) \<le> INT_MAX" by (simp add: INT_MAX_def)
  with assms(2) show ?thesis by (intro poly_in_range_letters) simp_all
qed


text \<open>
  C8, as amended. For every key on which the accumulator of \<open>hashCodePoly\<close> stays in
  the range of \<open>int\<close> at every step, and so for every key of at most six lowercase
  letters, the Polynomial hash code is the exact value of the base-33 polynomial with the
  coefficients \<open>char_code - 96\<close>, most significant character first.
\<close>

theorem hashCodePoly_exact:
  "(length key \<le> 6 \<and> (\<forall>c \<in> set key. 1 \<le> char_code c - 96 \<and> char_code c - 96 \<le> 26)
      \<longrightarrow> hashCodePoly key
          = (\<Sum>i<length key. (char_code (key ! i) - 96) * 33 ^ (length key - 1 - i)))
   \<and> (poly_in_range 0 key
      \<longrightarrow> hashCodePoly key
          = (\<Sum>i<length key. (char_code (key ! i) - 96) * 33 ^ (length key - 1 - i)))"
  using poly_loop_exact [of 0 key] poly_in_range_short [of key]
  by (auto simp: hashCodePoly_def poly_value_sum)

theorem hashCodePoly_exact_witness:
  "length ''cat'' \<le> (6::nat)
   \<and> 1 \<le> char_code (CHR ''c'') - 96 \<and> char_code (CHR ''c'') - 96 \<le> 26
   \<and> 1 \<le> char_code (CHR ''a'') - 96 \<and> char_code (CHR ''a'') - 96 \<le> 26
   \<and> 1 \<le> char_code (CHR ''t'') - 96 \<and> char_code (CHR ''t'') - 96 \<le> 26
   \<and> poly_in_range 0 ''cat''
   \<and> hashCodePoly ''cat'' = 3 * 33 ^ 2 + 1 * 33 + 20"
proof -
  have l: "length ''cat'' \<le> (6::nat)" by simp
  have c: "\<forall>c \<in> set ''cat''. 1 \<le> char_code c - 96 \<and> char_code c - 96 \<le> 26"
    by (simp add: char_code_def)
  have p: "poly_in_range 0 ''cat''" by code_simp
  have s: "(\<Sum>i<length ''cat''. (char_code (''cat'' ! i) - 96) * 33 ^ (length ''cat'' - 1 - i))
             = 3 * 33 ^ 2 + 1 * 33 + 20"
    by (simp add: char_code_def eval_nat_numeral)
  from hashCodePoly_exact [of "''cat''"] l c p s
  have "hashCodePoly ''cat'' = 3 * 33 ^ 2 + 1 * 33 + 20" by simp
  with l c p show ?thesis by simp
qed

text \<open>
  The claim as it stands, for every key, fails on the eight letters of \<open>spelling\<close>:
  the polynomial is 830624253598, which no \<open>int\<close> holds; the first two additions
  leave the range of \<open>int\<close> and the code that comes out is negative.
\<close>

theorem hashCodePoly_overflow:
  "hashCodePoly ''spelling'' = - 1937134117 \<and> poly_value ''spelling'' = 830624253598"
  by code_simp


section \<open>The range of the compression\<close>

text \<open>
  The compression multiplies and adds in \<open>int\<close>. Where \<open>7 * code + 103\<close> stays in the
  range of \<open>int\<close> the index is \<open>(|7 * code + 103| mod 109345121) mod n\<close>; where it
  wraps, the index is computed from the wrapped value. Either way it lies in \<open>[0, n)\<close>,
  unless the wrapped value is \<open>INT_MIN\<close>, which happens for one hash code only.
\<close>



lemma hash_hashCode:
  "hash hm key =
     (case hashCompress hm (hashCode hm key) of Inl e \<Rightarrow> Inl e | Inr r \<Rightarrow> Inr (c_rem r (n hm)))"
  by (simp add: hash_def hashCode_def)

lemma wraps_iff:
  assumes "INT_MIN \<le> code" "code \<le> INT_MAX"
  shows "int32 (int32 (7 * code) + 103) = INT_MIN \<longleftrightarrow> code = - 306783393"
proof
  assume "code = - 306783393"
  then show "int32 (int32 (7 * code) + 103) = INT_MIN"
    by (simp add: int32_def INT_MIN_def)
next
  assume a: "int32 (int32 (7 * code) + 103) = INT_MIN"
  then have "(7 * code + 103 + 2147483648) mod 4294967296 = 0"
    by (simp add: int32_add_left) (simp add: int32_def INT_MIN_def)
  then have "4294967296 dvd 7 * code + 2147483751"
    by (simp add: mod_eq_0_iff_dvd add.commute)
  moreover have "7 * code + 2147483751 = 7 * (code + 306783393)" by simp
  ultimately have d: "4294967296 dvd 7 * (code + 306783393)" by (simp only:)
  have c: "coprime (4294967296::int) 7"
  proof -
    have "coprime (2 ^ 32 :: int) 7" by (rule coprime_power_left_iff [THEN iffD2]) simp
    then show ?thesis by simp
  qed
  from d have "4294967296 dvd code + 306783393"
    unfolding coprime_dvd_mult_right_iff [OF c] .
  then obtain q where q: "code + 306783393 = 4294967296 * q" by (auto simp: dvd_def)
  with assms have "- 1 < q" "q < 1" by (simp_all add: INT_MIN_def INT_MAX_def)
  then have "q = 0" by simp
  with q show "code = - 306783393" by simp
qed

lemma hashCompress_range:
  assumes "0 < n hm" "int32 (int32 (7 * code) + 103) \<noteq> INT_MIN"
  shows "\<exists>i. hashCompress hm code = Inr i \<and> 0 \<le> i \<and> i < n hm"
proof -
  let ?w = "int32 (int32 (7 * code) + 103)"
  from int32_range [of "int32 (7 * code) + 103"] assms(2)
  have "INT_MIN < ?w" "?w \<le> INT_MAX" by simp_all
  then have "c_abs ?w = \<bar>?w\<bar>" by (rule c_abs_eq)
  then have "hashCompress hm code = Inr ((\<bar>?w\<bar> mod 109345121) mod n hm)"
    using assms(1) by (simp add: hashCompress_def c_rem_nonneg)
  with assms(1) show ?thesis by simp
qed

lemma hashCompress_exact:
  assumes "0 < n hm" "INT_MIN < 7 * code + 103" "7 * code + 103 \<le> INT_MAX"
  shows "hashCompress hm code = Inr ((\<bar>7 * code + 103\<bar> mod 109345121) mod n hm)"
proof -
  have "int32 (int32 (7 * code) + 103) = 7 * code + 103"
    using assms(2,3) by (simp add: int32_add_left int32_id)
  moreover from this assms(2,3) have "c_abs (int32 (int32 (7 * code) + 103)) = \<bar>7 * code + 103\<bar>"
    by (simp add: c_abs_eq)
  ultimately show ?thesis using assms(1) by (simp add: hashCompress_def c_rem_nonneg)
qed

lemma double_to_int_range: "INT_MIN \<le> double_to_int v \<and> double_to_int v \<le> INT_MAX"
  by (simp add: double_to_int_def INT_MIN_def INT_MAX_def)

lemma poly_loop_range:
  "INT_MIN \<le> s \<Longrightarrow> s \<le> INT_MAX \<Longrightarrow> INT_MIN \<le> poly_loop s key \<and> poly_loop s key \<le> INT_MAX"
proof (induction key arbitrary: s)
  case Nil
  then show ?case by simp
next
  case (Cons c cs)
  let ?s = "let j = length cs; coeff = char_code c - 96 in
                if coeff = 0 \<and> 203 \<le> j then INT_MIN
                else double_to_int (s + coeff * 33 ^ j)"
  have "INT_MIN \<le> ?s \<and> ?s \<le> INT_MAX"
    using double_to_int_range by (simp add: Let_def INT_MIN_def INT_MAX_def)
  then have "INT_MIN \<le> poly_loop ?s cs \<and> poly_loop ?s cs \<le> INT_MAX"
    using Cons.IH by blast
  then show ?case by simp
qed

lemma custom_loop_range:
  "INT_MIN \<le> s \<Longrightarrow> s \<le> INT_MAX \<Longrightarrow>
     INT_MIN \<le> custom_loop s key \<and> custom_loop s key \<le> INT_MAX"
proof (induction key arbitrary: s)
  case Nil
  then show ?case by simp
next
  case (Cons c cs)
  from double_to_int_range [of "s + (char_code c - 92) ^ Suc (length cs)"] Cons.IH
  have "INT_MIN \<le> custom_loop (double_to_int (s + (char_code c - 92) ^ Suc (length cs))) cs
     \<and> custom_loop (double_to_int (s + (char_code c - 92) ^ Suc (length cs))) cs \<le> INT_MAX"
    by blast
  then show ?case by simp
qed

lemma hashCode_range: "INT_MIN \<le> hashCode hm key \<and> hashCode hm key \<le> INT_MAX"
proof (cases "HashCodeMethod hm")
  case poly
  with poly_loop_range [of 0 key] show ?thesis
    by (simp add: hashCode_def hashCodePoly_def INT_MIN_def INT_MAX_def)
next
  case cyclic
  have "- (2 ^ 31) \<le> sint (cyclic_loop 0 key)" "sint (cyclic_loop 0 key) < 2 ^ 31"
    using sint_ge [of "cyclic_loop 0 key"] sint_lt [of "cyclic_loop 0 key"] by simp_all
  with cyclic show ?thesis
    by (simp add: hashCode_def hashCodeCyclic_def INT_MIN_def INT_MAX_def)
next
  case simple
  with int32_range [of "simple_sum key"] show ?thesis
    by (simp add: hashCode_def hashCodeSimple_int32)
next
  case custom
  with custom_loop_range [of 0 key] show ?thesis
    by (simp add: hashCode_def hashCodeCustom_def INT_MIN_def INT_MAX_def)
qed

lemma hash_valid:
  assumes "0 < n hm" "hashCode hm key \<noteq> - 306783393"
  shows "\<exists>i. hash hm key = Inr i \<and> 0 \<le> i \<and> i < n hm"
proof -
  from hashCode_range [of hm key] assms(2)
  have "int32 (int32 (7 * hashCode hm key) + 103) \<noteq> INT_MIN"
    by (simp add: wraps_iff)
  from hashCompress_range [OF assms(1) this]
  obtain i where i: "hashCompress hm (hashCode hm key) = Inr i" "0 \<le> i" "i < n hm" by blast
  then have "c_rem i (n hm) = i" by (simp add: c_rem_nonneg)
  with i show ?thesis by (simp add: hash_hashCode)
qed

text \<open>
  C6. The claim: for every hash code \<open>c\<close> and every bucket count \<open>n > 0\<close> the compression
  returns an index in \<open>[0, n)\<close>, so that \<open>hash(key)\<close> is always a valid bucket index.
  The code: the key \<open>xsxjswa\<close> has the cyclic hash code \<open>-306783393\<close>, for which
  \<open>7 * code + 103\<close> is \<open>INT_MIN\<close>; \<open>abs\<close> leaves \<open>INT_MIN\<close> as it is, both remainders
  are negative, and with 7 buckets \<open>hashCompress\<close> and \<open>hash\<close> return \<open>-3\<close>.
  By \<open>wraps_iff\<close> and \<open>hash_valid\<close> above this hash code is the only one on which the
  index leaves \<open>[0, n)\<close>.
\<close>

theorem hashCompress_negative_index:
  "hashCodeCyclic ''xsxjswa'' = - 306783393
   \<and> hashCompress \<lparr>HashCodeMethod = cyclic, n = 7, table = Some [[], [], [], [], [], [], []],
        inserts = [0, 0, 0, 0, 0, 0, 0]\<rparr> (- 306783393) = Inr (- 3)
   \<and> hash \<lparr>HashCodeMethod = cyclic, n = 7, table = Some [[], [], [], [], [], [], []],
        inserts = [0, 0, 0, 0, 0, 0, 0]\<rparr> ''xsxjswa'' = Inr (- 3)"
  by code_simp

section \<open>Resizing to a size that is not positive\<close>


lemma put_zero_buckets: "n hm = 0 \<Longrightarrow> put hm key = Inl DivByZero"
  by (simp add: put_def find_key_def hash_def hashCompress_def)

lemma put_all_zero_buckets:
  "n hm = 0 \<Longrightarrow> put_all hm ks = (if ks = [] then Inr hm else Inl DivByZero)"
  by (cases ks) (simp_all add: put_zero_buckets)

lemma reinsert_zero_buckets:
  "n hm = 0 \<Longrightarrow>
     reinsert hm bs (length bs) = (if concat bs = [] then Inr hm else Inl DivByZero)"
proof (induction bs)
  case Nil
  then show ?case by simp
next
  case (Cons b bs)
  then show ?case by (simp add: put_all_zero_buckets)
qed

text \<open>
  C3, as amended. \<open>resizeTable\<close> does not check its argument. A negative size makes the
  allocation of the counters fail. The size 0 is accepted: on an object without table,
  and on a table with \<open>n\<close> buckets that holds no key, the resize succeeds and leaves a
  table of zero buckets and zero counters; on a table that holds a key, the first
  re-insertion divides by the new bucket count 0.
\<close>

theorem resizeTable_not_positive:
  "(s < 0 \<longrightarrow> resizeTable hm s = Inl BadArrayNewLength)
   \<and> (table hm = None \<longrightarrow>
        resizeTable hm 0 = Inr (hm\<lparr>n := 0, table := Some [], inserts := []\<rparr>))
   \<and> (table hm = Some bs \<and> n hm = int (length bs) \<longrightarrow>
        resizeTable hm 0 =
          (if concat bs = [] then Inr (hm\<lparr>n := 0, table := Some [], inserts := []\<rparr>)
           else Inl DivByZero))"
proof -
  have a: "resizeTable hm s = Inl BadArrayNewLength" if "s < 0"
    using that by (simp add: resizeTable_def)
  have b: "resizeTable hm 0 = Inr (hm\<lparr>n := 0, table := Some [], inserts := []\<rparr>)"
    if "table hm = None"
    using that by (simp add: resizeTable_def)
  have c: "resizeTable hm 0 =
          (if concat bs = [] then Inr (hm\<lparr>n := 0, table := Some [], inserts := []\<rparr>)
           else Inl DivByZero)"
    if t: "table hm = Some bs" "n hm = int (length bs)"
  proof -
    let ?hm1 = "hm\<lparr>n := 0, table := Some [], inserts := []\<rparr>"
    have r: "reinsert ?hm1 bs (length bs) = (if concat bs = [] then Inr ?hm1 else Inl DivByZero)"
      by (rule reinsert_zero_buckets) simp
    have d: "deleteTable ?hm1 (Some bs) (int (length bs)) = Inr ()"
      by (simp add: deleteTable_def)
    from t r d show ?thesis by (simp add: resizeTable_def)
  qed
  from a b c show ?thesis by blast
qed

theorem resizeTable_not_positive_witness:
  "resizeTable \<lparr>HashCodeMethod = simple, n = 3, table = Some [[''dog''], [], []],
                 inserts = [1, 0, 0]\<rparr> (- 1) = Inl BadArrayNewLength
   \<and> resizeTable HashMap_ctor 0
       = Inr \<lparr>HashCodeMethod = simple, n = 0, table = Some [], inserts = []\<rparr>
   \<and> resizeTable \<lparr>HashCodeMethod = simple, n = 3, table = Some [[''dog''], [], []],
                 inserts = [1, 0, 0]\<rparr> 0 = Inl DivByZero"
proof -
  have "(- 1 :: int) < 0" by simp
  moreover have "table HashMap_ctor = None" by (simp add: HashMap_ctor_def)
  moreover have "table \<lparr>HashCodeMethod = simple, n = 3, table = Some [[''dog''], [], []],
                 inserts = [1, 0, 0]\<rparr> = Some [[''dog''], [], []]
     \<and> n \<lparr>HashCodeMethod = simple, n = 3, table = Some [[''dog''], [], []],
                 inserts = [1, 0, 0]\<rparr> = int (length [[''dog''], [], [] :: string list])"
    by simp
  ultimately show ?thesis
    using resizeTable_not_positive
      [of "- 1" "\<lparr>HashCodeMethod = simple, n = 3, table = Some [[''dog''], [], []],
                 inserts = [1, 0, 0]\<rparr>" "[[''dog''], [], []]"]
      resizeTable_not_positive [of 0 HashMap_ctor "[]"]
    by (simp add: HashMap_ctor_def)
qed

text \<open>
  The claim as it stands, that a size \<open>s \<le> 0\<close> is rejected and the table is left as
  it was, fails for the size 0 on a table of three empty buckets: the resize succeeds and
  the table has no bucket afterwards.
\<close>

theorem resizeTable_zero_accepted:
  "resizeTable \<lparr>HashCodeMethod = simple, n = 3, table = Some [[], [], []],
                 inserts = [0, 0, 0]\<rparr> 0
     = Inr \<lparr>HashCodeMethod = simple, n = 0, table = Some [], inserts = []\<rparr>"
  by code_simp

section \<open>The invariant of the table\<close>


lemma placed_iff:
  "placed hm \<longleftrightarrow>
     (\<forall>i < length (buckets hm). \<forall>k \<in> set (buckets hm ! i). hash hm k = Inr (int i))"
proof
  assume p: "placed hm"
  show "\<forall>i < length (buckets hm). \<forall>k \<in> set (buckets hm ! i). hash hm k = Inr (int i)"
  proof (intro allI impI ballI)
    fix i k assume i: "i < length (buckets hm)" and k: "k \<in> set (buckets hm ! i)"
    from i have "(i, buckets hm ! i) \<in> set (enumerate 0 (buckets hm))"
      by (simp add: in_set_enumerate_eq)
    with p k show "hash hm k = Inr (int i)" unfolding placed_def by blast
  qed
next
  assume "\<forall>i < length (buckets hm). \<forall>k \<in> set (buckets hm ! i). hash hm k = Inr (int i)"
  then show "placed hm" by (auto simp: placed_def in_set_enumerate_eq)
qed

lemma c_rem_abs_less: "0 < b \<Longrightarrow> - b < c_rem a b \<and> c_rem a b < b"
proof -
  assume b: "0 < b"
  have m: "0 \<le> (- a) mod b" "(- a) mod b < b" "0 \<le> a mod b" "a mod b < b"
    using b by simp_all
  show ?thesis
  proof (cases "a < 0")
    case True
    with b have "c_rem a b = - ((- a) mod b)" by (simp add: c_rem_def)
    with m b show ?thesis by linarith
  next
    case False
    with b have "c_rem a b = a mod b" by (simp add: c_rem_def)
    with m b show ?thesis by linarith
  qed
qed

lemma hash_less: "0 < n hm \<Longrightarrow> hash hm key = Inr i \<Longrightarrow> - n hm < i \<and> i < n hm"
  using c_rem_abs_less [of "n hm"]
  by (auto simp: hash_def hashCompress_def Let_def split: if_splits sum.splits)

lemma hash_total: "n hm \<noteq> 0 \<Longrightarrow> \<exists>i. hash hm key = Inr i"
  by (simp add: hash_def hashCompress_def Let_def)

lemma erase_Inr:
  assumes "erase hm key = Inr hm'"
  shows "hm' = hm \<or>
     (\<exists>i bs. table hm = Some bs \<and> 0 \<le> i \<and> i < int (length bs)
        \<and> hm' = hm\<lparr>table := Some (bs[nat i := removeAll key (bs ! nat i)]),
                   inserts := (inserts hm)[nat i := int32 (inserts hm ! nat i + - 1)]\<rparr>)"
proof -
  from assms obtain r where r: "find_key hm key = Inr r"
    by (cases "find_key hm key") (simp_all add: erase_def)
  show ?thesis
  proof (cases "r = 0")
    case True
    with r assms show ?thesis by (simp add: erase_def)
  next
    case False
    with r assms obtain chain where c: "bucket_at hm r = Inr chain"
      by (cases "bucket_at hm r") (simp_all add: erase_def)
    then obtain bs where bs: "table hm = Some bs" "0 \<le> r" "r < int (length bs)"
      "chain = bs ! nat r"
      by (auto simp: bucket_at_def split: option.splits if_splits)
    with False r c assms have
      "add_inserts (hm\<lparr>table := Some (bs[nat r := removeAll key (bs ! nat r)])\<rparr>) r (- 1) = Inr hm'"
      by (simp add: erase_def set_bucket_def)
    then have "hm' = hm\<lparr>table := Some (bs[nat r := removeAll key (bs ! nat r)]),
                   inserts := (inserts hm)[nat r := int32 (inserts hm ! nat r + - 1)]\<rparr>"
      by (auto simp: add_inserts_def split: if_splits)
    with bs show ?thesis by blast
  qed
qed


lemma sound_put:
  assumes "sound hm" and "put hm key = Inr hm'"
  shows "sound hm'"
proof -
  from put_Inr [OF assms(2)] obtain i bs where h: "hash hm key = Inr i" "table hm = Some bs"
    "0 \<le> i" "i < int (length bs)"
    and c: "if key \<in> set (bs ! nat i) then hm' = hm
          else i < int (length (inserts hm))
             \<and> hm' = hm\<lparr>table := Some (bs[nat i := bs ! nat i @ [key]]),
                        inserts := (inserts hm)[nat i := int32 (inserts hm ! nat i + 1)]\<rparr>"
    by blast
  show ?thesis
  proof (cases "key \<in> set (bs ! nat i)")
    case True
    with c assms(1) show ?thesis by simp
  next
    case False
    with c have hm': "hm' = hm\<lparr>table := Some (bs[nat i := bs ! nat i @ [key]]),
                        inserts := (inserts hm)[nat i := int32 (inserts hm ! nat i + 1)]\<rparr>"
      by simp
    have hh: "hash hm' k = hash hm k" for k
      by (rule hash_cong) (simp_all add: hm')
    have ch: "buckets hm = bs" "buckets hm' = bs[nat i := bs ! nat i @ [key]]"
      using h by (simp_all add: buckets_def hm')
    from assms(1) have p: "\<forall>j < length bs. \<forall>k \<in> set (bs ! j). hash hm k = Inr (int j)"
      and d: "\<forall>chain \<in> set bs. distinct chain"
      by (simp_all add: sound_def placed_iff ch)
    have i: "nat i < length bs" "int (nat i) = i" using h by simp_all
    have "placed hm'"
      unfolding placed_iff ch hh
    proof (intro allI impI ballI)
      fix j k assume j: "j < length (bs[nat i := bs ! nat i @ [key]])"
        and k: "k \<in> set (bs[nat i := bs ! nat i @ [key]] ! j)"
      show "hash hm k = Inr (int j)"
      proof (cases "j = nat i")
        case True
        with k i have "k \<in> set (bs ! nat i) \<or> k = key" by auto
        moreover from p i have "\<forall>k \<in> set (bs ! nat i). hash hm k = Inr i" by auto
        ultimately show ?thesis using h(1) i(2) True by auto
      next
        case False
        with j k p show ?thesis by simp
      qed
    qed
    moreover have "\<forall>chain \<in> set (buckets hm'). distinct chain"
    proof
      fix chain assume "chain \<in> set (buckets hm')"
      then have "chain \<in> set bs \<or> chain = bs ! nat i @ [key]"
        unfolding ch using set_update_subset_insert [of bs "nat i" "bs ! nat i @ [key]"] by auto
      moreover have "distinct (bs ! nat i)" using d i by simp
      ultimately show "distinct chain" using d False by auto
    qed
    ultimately show ?thesis by (simp add: sound_def)
  qed
qed


lemma sound_erase:
  assumes "sound hm" and "erase hm key = Inr hm'"
  shows "sound hm'"
proof -
  from erase_Inr [OF assms(2)] show ?thesis
  proof
    assume "hm' = hm"
    with assms(1) show ?thesis by simp
  next
    assume "\<exists>i bs. table hm = Some bs \<and> 0 \<le> i \<and> i < int (length bs)
        \<and> hm' = hm\<lparr>table := Some (bs[nat i := removeAll key (bs ! nat i)]),
                   inserts := (inserts hm)[nat i := int32 (inserts hm ! nat i + - 1)]\<rparr>"
    then obtain i bs where h: "table hm = Some bs" "0 \<le> i" "i < int (length bs)"
      and hm': "hm' = hm\<lparr>table := Some (bs[nat i := removeAll key (bs ! nat i)]),
                   inserts := (inserts hm)[nat i := int32 (inserts hm ! nat i + - 1)]\<rparr>"
      by blast
    have hh: "hash hm' k = hash hm k" for k
      by (rule hash_cong) (simp_all add: hm')
    have ch: "buckets hm = bs" "buckets hm' = bs[nat i := removeAll key (bs ! nat i)]"
      using h by (simp_all add: buckets_def hm')
    from assms(1) have p: "\<forall>j < length bs. \<forall>k \<in> set (bs ! j). hash hm k = Inr (int j)"
      and d: "\<forall>chain \<in> set bs. distinct chain"
      by (simp_all add: sound_def placed_iff ch)
    have i: "nat i < length bs" using h by simp
    have "placed hm'"
      unfolding placed_iff ch hh
    proof (intro allI impI ballI)
      fix j k assume j: "j < length (bs[nat i := removeAll key (bs ! nat i)])"
        and k: "k \<in> set (bs[nat i := removeAll key (bs ! nat i)] ! j)"
      from j k i have "k \<in> set (bs ! j)" by (cases "j = nat i") auto
      with j p show "hash hm k = Inr (int j)" by simp
    qed
    moreover have "\<forall>chain \<in> set (buckets hm'). distinct chain"
    proof
      fix chain assume "chain \<in> set (buckets hm')"
      then have "chain \<in> set bs \<or> chain = removeAll key (bs ! nat i)"
        unfolding ch
        using set_update_subset_insert [of bs "nat i" "removeAll key (bs ! nat i)"] by auto
      moreover have "distinct (bs ! nat i)" using d i by simp
      ultimately show "distinct chain" using d by (auto simp: distinct_removeAll)
    qed
    ultimately show ?thesis by (simp add: sound_def)
  qed
qed

lemma sound_put_all: "sound hm \<Longrightarrow> put_all hm ks = Inr hm' \<Longrightarrow> sound hm'"
proof (induction ks arbitrary: hm)
  case Nil
  then show ?case by simp
next
  case (Cons k ks)
  from Cons.prems(2) obtain hm1 where p: "put hm k = Inr hm1" and r: "put_all hm1 ks = Inr hm'"
    by (cases "put hm k") simp_all
  from sound_put [OF Cons.prems(1) p] r show ?case by (rule Cons.IH)
qed

lemma sound_reinsert: "sound hm \<Longrightarrow> reinsert hm old k = Inr hm' \<Longrightarrow> sound hm'"
proof (induction hm old k rule: reinsert.induct)
  case (1 hm oldTable)
  then show ?case by simp
next
  case (2 hm k)
  then show ?case by simp
next
  case (3 hm curList rest k)
  from "3.prems"(2) obtain hm1 where p: "put_all hm curList = Inr hm1"
    and r: "reinsert hm1 rest k = Inr hm'"
    by (cases "put_all hm curList") simp_all
  from sound_put_all [OF "3.prems"(1) p] have "sound hm1" .
  with p r show ?case by (intro "3.IH") simp_all
qed

lemma sound_fresh:
  "sound (hm\<lparr>n := s, table := Some (replicate k []), inserts := cs\<rparr>)"
  by (auto simp: sound_def placed_iff buckets_def)

lemma sound_resizeTable: "resizeTable hm s = Inr hm' \<Longrightarrow> sound hm'"
proof -
  assume a: "resizeTable hm s = Inr hm'"
  let ?hm1 = "hm\<lparr>n := s, table := Some (replicate (nat s) []), inserts := replicate (nat s) 0\<rparr>"
  have f: "sound ?hm1" by (rule sound_fresh)
  show ?thesis
  proof (cases "table hm")
    case None
    with a f show ?thesis by (simp add: resizeTable_def split: if_splits)
  next
    case (Some old)
    with a obtain hm2 where "reinsert ?hm1 old (nat (n hm)) = Inr hm2" and "hm' = hm2"
      by (auto simp: resizeTable_def Let_def split: if_splits sum.splits)
    with f show ?thesis using sound_reinsert by blast
  qed
qed

lemma sound_ctor: "sound HashMap_ctor"
  by (simp add: sound_def placed_iff buckets_def HashMap_ctor_def)

lemma reachable_sound: "reachable hm \<Longrightarrow> sound hm"
proof (induction rule: reachable.induct)
  case reachable_ctor
  show ?case by (rule sound_ctor)
next
  case (reachable_put hm key hm')
  then show ?case using sound_put by blast
next
  case (reachable_erase hm key hm')
  then show ?case using sound_erase by blast
next
  case (reachable_rehash hm m s hm')
  then show ?case using sound_resizeTable by blast
qed

lemma distinct_concat_index:
  assumes "\<forall>ys \<in> set xss. distinct ys"
    and "\<forall>i < length xss. \<forall>j < length xss. \<forall>k. k \<in> set (xss ! i) \<and> k \<in> set (xss ! j) \<longrightarrow> i = j"
  shows "distinct (concat xss)"
  using assms
proof (induction xss)
  case Nil
  then show ?case by simp
next
  case (Cons ys xss)
  have d: "distinct (concat xss)"
  proof (rule Cons.IH)
    show "\<forall>ys \<in> set xss. distinct ys" using Cons.prems(1) by simp
    show "\<forall>i < length xss. \<forall>j < length xss. \<forall>k. k \<in> set (xss ! i) \<and> k \<in> set (xss ! j) \<longrightarrow> i = j"
    proof (intro allI impI)
      fix i j k assume i: "i < length xss" and j: "j < length xss"
        and k: "k \<in> set (xss ! i) \<and> k \<in> set (xss ! j)"
      from i j k Cons.prems(2) [rule_format, of "Suc i" "Suc j" k] show "i = j" by simp
    qed
  qed
  have "set ys \<inter> set (concat xss) = {}"
  proof (rule ccontr)
    assume "set ys \<inter> set (concat xss) \<noteq> {}"
    then obtain k zs where k: "k \<in> set ys" "zs \<in> set xss" "k \<in> set zs" by auto
    then obtain j where j: "j < length xss" "xss ! j = zs" by (auto simp: in_set_conv_nth)
    with k Cons.prems(2) [rule_format, of 0 "Suc j" k] show False by simp
  qed
  with d Cons.prems(1) show ?case by simp
qed

lemma sound_distinct: "sound hm \<Longrightarrow> distinct (concat (buckets hm))"
proof (rule distinct_concat_index)
  assume s: "sound hm"
  then show "\<forall>ys \<in> set (buckets hm). distinct ys" by (simp add: sound_def)
  from s have p: "\<forall>i < length (buckets hm). \<forall>k \<in> set (buckets hm ! i). hash hm k = Inr (int i)"
    by (simp add: sound_def placed_iff)
  show "\<forall>i < length (buckets hm). \<forall>j < length (buckets hm).
          \<forall>k. k \<in> set (buckets hm ! i) \<and> k \<in> set (buckets hm ! j) \<longrightarrow> i = j"
  proof (intro allI impI)
    fix i j k assume i: "i < length (buckets hm)" and j: "j < length (buckets hm)"
      and k: "k \<in> set (buckets hm ! i) \<and> k \<in> set (buckets hm ! j)"
    from p i k have "hash hm k = Inr (int i)" by blast
    moreover from p j k have "hash hm k = Inr (int j)" by blast
    ultimately show "i = j" by simp
  qed
qed

section \<open>Insertion into a well-formed table, and the replay of a resize\<close>


lemma set_concat_update_append:
  "i < length bs \<Longrightarrow> set (concat (bs[i := bs ! i @ [k]])) = insert k (set (concat bs))"
proof (induction bs arbitrary: i)
  case Nil
  then show ?case by simp
next
  case (Cons b bs)
  show ?case
  proof (cases i)
    case 0
    then show ?thesis by auto
  next
    case (Suc j)
    with Cons.prems have "j < length bs" by simp
    from Cons.IH [OF this] Suc show ?thesis by auto
  qed
qed

lemma put_eq:
  assumes "well_formed hm" "hash hm key = Inr i" "0 \<le> i" "i < n hm"
  shows "put hm key =
     Inr (if key \<in> set (buckets hm ! nat i) then hm
          else hm\<lparr>table := Some ((buckets hm)[nat i := buckets hm ! nat i @ [key]]),
                  inserts := (inserts hm)[nat i := int32 (inserts hm ! nat i + 1)]\<rparr>)"
proof -
  from assms(1) obtain bs where bs: "table hm = Some bs" "int (length bs) = n hm"
    "int (length (inserts hm)) = n hm"
    by (auto simp: well_formed_def split: option.splits)
  with assms have i: "i < int (length bs)" "i < int (length (inserts hm))" by simp_all
  from find_key_eq [OF assms(2) bs(1) assms(3) i(1)]
  have f: "find_key hm key = Inr (if key \<in> set (bs ! nat i) then i else - 1)" .
  have b: "buckets hm = bs" using bs by (simp add: buckets_def)
  show ?thesis
  proof (cases "key \<in> set (bs ! nat i)")
    case True
    with f assms(3) show ?thesis by (simp add: put_def b)
  next
    case False
    with f assms bs i show ?thesis
      by (simp add: put_def b bucket_at_def set_bucket_def add_inserts_def)
  qed
qed

lemma put_keeps:
  assumes "well_formed hm" "counted hm" "hash hm key = Inr i" "0 \<le> i" "i < n hm"
  shows "\<exists>hm'. put hm key = Inr hm' \<and> well_formed hm' \<and> counted hm' \<and> n hm' = n hm
           \<and> HashCodeMethod hm' = HashCodeMethod hm
           \<and> set (concat (buckets hm')) = insert key (set (concat (buckets hm)))"
proof -
  from assms(1) obtain bs where bs: "table hm = Some bs" "int (length bs) = n hm"
    "int (length (inserts hm)) = n hm"
    by (auto simp: well_formed_def split: option.splits)
  have b: "buckets hm = bs" using bs by (simp add: buckets_def)
  from assms bs have i: "nat i < length bs" by simp
  note p = put_eq [OF assms(1,3,4,5)]
  show ?thesis
  proof (cases "key \<in> set (bs ! nat i)")
    case True
    with i have "key \<in> set (concat bs)" by auto
    with True p assms show ?thesis by (auto simp: b)
  next
    case False
    let ?hm' = "hm\<lparr>table := Some (bs[nat i := bs ! nat i @ [key]]),
                  inserts := (inserts hm)[nat i := int32 (inserts hm ! nat i + 1)]\<rparr>"
    from False p have e: "put hm key = Inr ?hm'" by (simp add: b)
    have w: "well_formed ?hm'" using bs by (simp add: well_formed_def)
    have c0: "inserts hm = map (\<lambda>chain. int32 (int (length chain))) bs"
      using assms(2) by (simp add: counted_def b)
    then have "inserts hm ! nat i = int32 (int (length (bs ! nat i)))" using i by simp
    then have "int32 (inserts hm ! nat i + 1) = int32 (int (length (bs ! nat i)) + 1)"
      by (simp only: int32_add_left)
    then have "int32 (inserts hm ! nat i + 1) = int32 (int (length (bs ! nat i @ [key])))"
      by (simp add: add.commute)
    with c0 have c: "counted ?hm'"
      by (simp add: counted_def buckets_def map_update)
    have "set (concat (bs[nat i := bs ! nat i @ [key]])) = insert key (set (concat bs))"
      using i by (rule set_concat_update_append)
    then have k: "set (concat (buckets ?hm')) = insert key (set (concat (buckets hm)))"
      by (simp add: buckets_def bs)
    from e w c k show ?thesis by simp
  qed
qed


lemma put_all_keeps:
  assumes "well_formed hm" "counted hm" "0 < n hm" "\<forall>k \<in> set ks. \<exists>i. hash hm k = Inr i \<and> 0 \<le> i"
  shows "\<exists>hm'. put_all hm ks = Inr hm' \<and> well_formed hm' \<and> counted hm' \<and> n hm' = n hm
           \<and> HashCodeMethod hm' = HashCodeMethod hm
           \<and> set (concat (buckets hm')) = set ks \<union> set (concat (buckets hm))"
  using assms
proof (induction ks arbitrary: hm)
  case Nil
  then show ?case by simp
next
  case (Cons k ks)
  from Cons.prems(4) obtain i where i: "hash hm k = Inr i" "0 \<le> i" by auto
  with hash_less [OF Cons.prems(3)] have "i < n hm" by blast
  from put_keeps [OF Cons.prems(1,2) i this]
  obtain hm1 where p: "put hm k = Inr hm1" and k: "well_formed hm1" "counted hm1" "n hm1 = n hm"
    "HashCodeMethod hm1 = HashCodeMethod hm"
    and s: "set (concat (buckets hm1)) = insert k (set (concat (buckets hm)))"
    by blast
  have "hash hm1 x = hash hm x" for x using k by (intro hash_cong) simp_all
  with Cons.prems(4) have v: "\<forall>x \<in> set ks. \<exists>i. hash hm1 x = Inr i \<and> 0 \<le> i" by simp
  from k Cons.prems(3) have "0 < n hm1" by simp
  from Cons.IH [OF k(1,2) this v]
  obtain hm' where r: "put_all hm1 ks = Inr hm'" "well_formed hm'" "counted hm'" "n hm' = n hm1"
    "HashCodeMethod hm' = HashCodeMethod hm1"
    "set (concat (buckets hm')) = set ks \<union> set (concat (buckets hm1))"
    by blast
  with p k s show ?case by auto
qed

lemma reinsert_keeps:
  assumes "well_formed hm" "counted hm" "0 < n hm"
    "\<forall>k \<in> set (concat old). \<exists>i. hash hm k = Inr i \<and> 0 \<le> i"
  shows "\<exists>hm'. reinsert hm old (length old) = Inr hm' \<and> well_formed hm' \<and> counted hm' \<and> n hm' = n hm
           \<and> HashCodeMethod hm' = HashCodeMethod hm
           \<and> set (concat (buckets hm')) = set (concat old) \<union> set (concat (buckets hm))"
  using assms
proof (induction old arbitrary: hm)
  case Nil
  then show ?case by simp
next
  case (Cons curList rest)
  from Cons.prems(4) have "\<forall>k \<in> set curList. \<exists>i. hash hm k = Inr i \<and> 0 \<le> i" by simp
  from put_all_keeps [OF Cons.prems(1,2,3) this]
  obtain hm1 where p: "put_all hm curList = Inr hm1" and k: "well_formed hm1" "counted hm1"
    "n hm1 = n hm" "HashCodeMethod hm1 = HashCodeMethod hm"
    and s: "set (concat (buckets hm1)) = set curList \<union> set (concat (buckets hm))"
    by blast
  have "hash hm1 x = hash hm x" for x using k by (intro hash_cong) simp_all
  with Cons.prems(4) have v: "\<forall>x \<in> set (concat rest). \<exists>i. hash hm1 x = Inr i \<and> 0 \<le> i"
    by simp
  from k Cons.prems(3) have "0 < n hm1" by simp
  from Cons.IH [OF k(1,2) this v]
  obtain hm' where r: "reinsert hm1 rest (length rest) = Inr hm'" "well_formed hm'" "counted hm'"
    "n hm' = n hm1" "HashCodeMethod hm' = HashCodeMethod hm1"
    "set (concat (buckets hm')) = set (concat rest) \<union> set (concat (buckets hm1))"
    by blast
  with p k s show ?case by auto
qed

lemma sound_find_key:
  assumes "sound hm" "k \<in> set (concat (buckets hm))"
  shows "\<exists>i. find_key hm k = Inr i \<and> 0 \<le> i \<and> k \<in> set (buckets hm ! nat i)"
proof -
  from assms(2) obtain chain where "chain \<in> set (buckets hm)" "k \<in> set chain" by auto
  then obtain j where j: "j < length (buckets hm)" "k \<in> set (buckets hm ! j)"
    unfolding in_set_conv_nth [of chain] by blast
  with assms(1) have h: "hash hm k = Inr (int j)" by (simp add: sound_def placed_iff)
  from j obtain bs where bs: "table hm = Some bs" "buckets hm = bs"
    by (cases "table hm") (simp_all add: buckets_def)
  from find_key_eq [OF h bs(1)] j bs have "find_key hm k = Inr (int j)" by simp
  with j show ?thesis by simp
qed

lemma resizeTable_keeps:
  assumes "well_formed hm" "0 < n hm" "0 < m"
    "\<forall>k \<in> set (concat (buckets hm)). \<exists>i. hash (hm\<lparr>n := m\<rparr>) k = Inr i \<and> 0 \<le> i"
  shows "\<exists>hm'. resizeTable hm m = Inr hm' \<and> n hm' = m
           \<and> HashCodeMethod hm' = HashCodeMethod hm \<and> well_formed hm' \<and> counted hm' \<and> sound hm'
           \<and> set (concat (buckets hm')) = set (concat (buckets hm))
           \<and> (\<forall>k \<in> set (concat (buckets hm)).
                 \<exists>i. find_key hm' k = Inr i \<and> 0 \<le> i \<and> k \<in> set (buckets hm' ! nat i))"
proof -
  from assms(1) obtain bs where bs: "table hm = Some bs" "int (length bs) = n hm"
    by (auto simp: well_formed_def split: option.splits)
  have b: "buckets hm = bs" using bs by (simp add: buckets_def)
  let ?hm1 = "hm\<lparr>n := m, table := Some (replicate (nat m) []), inserts := replicate (nat m) 0\<rparr>"
  have w1: "well_formed ?hm1" using assms(3) by (simp add: well_formed_def)
  have c1: "counted ?hm1" by (simp add: counted_def buckets_def int32_def)
  have n1: "0 < n ?hm1" using assms(3) by simp
  have "hash ?hm1 x = hash (hm\<lparr>n := m\<rparr>) x" for x by (rule hash_cong) simp_all
  with assms(4) have v: "\<forall>k \<in> set (concat bs). \<exists>i. hash ?hm1 k = Inr i \<and> 0 \<le> i"
    by (simp add: b)
  from reinsert_keeps [OF w1 c1 n1 v]
  obtain hm' where r: "reinsert ?hm1 bs (length bs) = Inr hm'" and k: "well_formed hm'" "counted hm'"
    "n hm' = m" "HashCodeMethod hm' = HashCodeMethod hm"
    and s: "set (concat (buckets hm')) = set (concat bs)"
    by (auto simp: buckets_def)
  from bs have l: "nat (n hm) = length bs" by simp
  have d: "deleteTable hm' (Some bs) (n hm) = Inr ()"
    using assms(2) bs by (simp add: deleteTable_def)
  from assms(3) bs r d l have e: "resizeTable hm m = Inr hm'"
    by (simp add: resizeTable_def)
  from e have snd: "sound hm'" by (rule sound_resizeTable)
  have f: "\<forall>k \<in> set (concat (buckets hm)).
          \<exists>i. find_key hm' k = Inr i \<and> 0 \<le> i \<and> k \<in> set (buckets hm' ! nat i)"
  proof
    fix k assume "k \<in> set (concat (buckets hm))"
    with s b have "k \<in> set (concat (buckets hm'))" by (simp only:)
    with snd show "\<exists>i. find_key hm' k = Inr i \<and> 0 \<le> i \<and> k \<in> set (buckets hm' ! nat i)"
      by (rule sound_find_key)
  qed
  from s b have "set (concat (buckets hm')) = set (concat (buckets hm))" by (simp only:)
  with e k snd f show ?thesis by blast
qed

lemma hashCode_cong: "HashCodeMethod a = HashCodeMethod b \<Longrightarrow> hashCode a key = hashCode b key"
  by (simp add: hashCode_def)

text \<open>
  A resize of a table of \<open>n > 0\<close> buckets to \<open>m > 0\<close> buckets, when no stored key has
  the hash code on which the compression fails: the new table has \<open>m\<close> buckets, holds the
  same keys, each where \<open>find\<close> finds it, and its counters count the keys of the new
  chains, whatever the old counters were.
\<close>

lemma resizeTable_keeps_keys:
  assumes "well_formed hm" "0 < n hm" "0 < m"
    "\<forall>k \<in> set (concat (buckets hm)). hashCode hm k \<noteq> - 306783393"
  shows "\<exists>hm'. resizeTable hm m = Inr hm' \<and> n hm' = m
           \<and> HashCodeMethod hm' = HashCodeMethod hm \<and> well_formed hm' \<and> counted hm' \<and> sound hm'
           \<and> set (concat (buckets hm')) = set (concat (buckets hm))
           \<and> (\<forall>k \<in> set (concat (buckets hm)).
                 \<exists>i. find_key hm' k = Inr i \<and> 0 \<le> i \<and> k \<in> set (buckets hm' ! nat i))"
proof (rule resizeTable_keeps [OF assms(1,2,3)])
  show "\<forall>k \<in> set (concat (buckets hm)). \<exists>i. hash (hm\<lparr>n := m\<rparr>) k = Inr i \<and> 0 \<le> i"
  proof
    fix k assume "k \<in> set (concat (buckets hm))"
    with assms(4) have "hashCode hm k \<noteq> - 306783393" by blast
    moreover have "hashCode (hm\<lparr>n := m\<rparr>) k = hashCode hm k" by (rule hashCode_cong) simp
    ultimately have "hashCode (hm\<lparr>n := m\<rparr>) k \<noteq> - 306783393" by simp
    moreover have "0 < n (hm\<lparr>n := m\<rparr>)" using assms(3) by simp
    ultimately show "\<exists>i. hash (hm\<lparr>n := m\<rparr>) k = Inr i \<and> 0 \<le> i"
      using hash_valid by blast
  qed
qed

section \<open>The counters of the tables that the operations build\<close>


lemma erase_Inr_found:
  assumes "erase hm key = Inr hm'"
  shows "hm' = hm \<or>
     (\<exists>i bs. table hm = Some bs \<and> 0 \<le> i \<and> i < int (length bs) \<and> key \<in> set (bs ! nat i)
        \<and> i < int (length (inserts hm))
        \<and> hm' = hm\<lparr>table := Some (bs[nat i := removeAll key (bs ! nat i)]),
                   inserts := (inserts hm)[nat i := int32 (inserts hm ! nat i + - 1)]\<rparr>)"
proof -
  from assms obtain r where r: "find_key hm key = Inr r"
    by (cases "find_key hm key") (simp_all add: erase_def)
  show ?thesis
  proof (cases "r = 0")
    case True
    with r assms show ?thesis by (simp add: erase_def)
  next
    case False
    from find_key_Inr [OF r] obtain i bs where h: "table hm = Some bs" "0 \<le> i"
      "i < int (length bs)" "r = (if key \<in> set (bs ! nat i) then i else - 1)"
      by blast
    from False r assms obtain chain where c: "bucket_at hm r = Inr chain"
      by (cases "bucket_at hm r") (simp_all add: erase_def)
    with h have "0 \<le> r" by (auto simp: bucket_at_def split: if_splits)
    with h have k: "key \<in> set (bs ! nat i)" "r = i" by (auto split: if_splits)
    with False r c h assms have
      "add_inserts (hm\<lparr>table := Some (bs[nat i := removeAll key (bs ! nat i)])\<rparr>) i (- 1) = Inr hm'"
      by (simp add: erase_def set_bucket_def bucket_at_def)
    then have "i < int (length (inserts hm))
        \<and> hm' = hm\<lparr>table := Some (bs[nat i := removeAll key (bs ! nat i)]),
                   inserts := (inserts hm)[nat i := int32 (inserts hm ! nat i + - 1)]\<rparr>"
      by (auto simp: add_inserts_def split: if_splits)
    with h k show ?thesis by blast
  qed
qed

lemma tidy_put:
  assumes "tidy hm" and "put hm key = Inr hm'"
  shows "tidy hm'"
proof -
  from put_Inr [OF assms(2)] obtain i bs where h: "hash hm key = Inr i" "table hm = Some bs"
    "0 \<le> i" "i < int (length bs)"
    and c: "if key \<in> set (bs ! nat i) then hm' = hm
          else i < int (length (inserts hm))
             \<and> hm' = hm\<lparr>table := Some (bs[nat i := bs ! nat i @ [key]]),
                        inserts := (inserts hm)[nat i := int32 (inserts hm ! nat i + 1)]\<rparr>"
    by blast
  show ?thesis
  proof (cases "key \<in> set (bs ! nat i)")
    case True
    with c assms(1) show ?thesis by simp
  next
    case False
    with c have hm': "hm' = hm\<lparr>table := Some (bs[nat i := bs ! nat i @ [key]]),
                        inserts := (inserts hm)[nat i := int32 (inserts hm ! nat i + 1)]\<rparr>"
      by simp
    have i: "nat i < length bs" using h by simp
    from assms(1) h have c0: "inserts hm = map (\<lambda>chain. int32 (int (length chain))) bs"
      and d: "\<forall>chain \<in> set bs. distinct chain" and l: "int (length bs) = n hm"
      by (simp_all add: tidy_def counted_def buckets_def)
    from c0 i have "inserts hm ! nat i = int32 (int (length (bs ! nat i)))" by simp
    then have "int32 (inserts hm ! nat i + 1) = int32 (int (length (bs ! nat i)) + 1)"
      by (simp only: int32_add_left)
    then have "int32 (inserts hm ! nat i + 1) = int32 (int (length (bs ! nat i @ [key])))"
      by (simp add: add.commute)
    with c0 have c1: "counted hm'"
      by (simp add: counted_def buckets_def map_update hm')
    have d1: "\<forall>chain \<in> set (buckets hm'). distinct chain"
    proof
      fix chain assume "chain \<in> set (buckets hm')"
      then have "chain \<in> set bs \<or> chain = bs ! nat i @ [key]"
        using set_update_subset_insert [of bs "nat i" "bs ! nat i @ [key]"]
        by (auto simp: hm' buckets_def)
      moreover have "distinct (bs ! nat i)" using d i by simp
      ultimately show "distinct chain" using d False by auto
    qed
    from c1 d1 l show ?thesis by (simp add: tidy_def hm')
  qed
qed

lemma tidy_erase:
  assumes "tidy hm" and "erase hm key = Inr hm'"
  shows "tidy hm'"
proof -
  from erase_Inr_found [OF assms(2)] show ?thesis
  proof
    assume "hm' = hm"
    with assms(1) show ?thesis by simp
  next
    assume "\<exists>i bs. table hm = Some bs \<and> 0 \<le> i \<and> i < int (length bs) \<and> key \<in> set (bs ! nat i)
        \<and> i < int (length (inserts hm))
        \<and> hm' = hm\<lparr>table := Some (bs[nat i := removeAll key (bs ! nat i)]),
                   inserts := (inserts hm)[nat i := int32 (inserts hm ! nat i + - 1)]\<rparr>"
    then obtain i bs where h: "table hm = Some bs" "0 \<le> i" "i < int (length bs)"
      "key \<in> set (bs ! nat i)"
      and hm': "hm' = hm\<lparr>table := Some (bs[nat i := removeAll key (bs ! nat i)]),
                   inserts := (inserts hm)[nat i := int32 (inserts hm ! nat i + - 1)]\<rparr>"
      by blast
    have i: "nat i < length bs" using h by simp
    from assms(1) h have c0: "inserts hm = map (\<lambda>chain. int32 (int (length chain))) bs"
      and d: "\<forall>chain \<in> set bs. distinct chain" and l: "int (length bs) = n hm"
      by (simp_all add: tidy_def counted_def buckets_def)
    have di: "distinct (bs ! nat i)" using d i by simp
    then have "removeAll key (bs ! nat i) = remove1 key (bs ! nat i)"
      by (simp add: distinct_remove1_removeAll)
    moreover from h(4) have "0 < length (bs ! nat i)" by (rule length_pos_if_in_set)
    then obtain k where "length (bs ! nat i) = Suc k" by (auto simp: gr0_conv_Suc)
    ultimately have len:
      "int (length (removeAll key (bs ! nat i))) = int (length (bs ! nat i)) - 1"
      using h(4) by (simp add: length_remove1)
    from c0 i have "inserts hm ! nat i = int32 (int (length (bs ! nat i)))" by simp
    then have "int32 (inserts hm ! nat i + - 1) = int32 (int (length (bs ! nat i)) + - 1)"
      by (simp only: int32_add_left)
    with len have "int32 (inserts hm ! nat i + - 1)
        = int32 (int (length (removeAll key (bs ! nat i))))"
      by simp
    with c0 have c1: "counted hm'"
      by (simp add: counted_def buckets_def map_update hm')
    have d1: "\<forall>chain \<in> set (buckets hm'). distinct chain"
    proof
      fix chain assume "chain \<in> set (buckets hm')"
      then have "chain \<in> set bs \<or> chain = removeAll key (bs ! nat i)"
        using set_update_subset_insert [of bs "nat i" "removeAll key (bs ! nat i)"]
        by (auto simp: hm' buckets_def)
      then show "distinct chain" using d di by (auto simp: distinct_removeAll)
    qed
    from c1 d1 l show ?thesis by (simp add: tidy_def hm')
  qed
qed

lemma tidy_put_all: "tidy hm \<Longrightarrow> put_all hm ks = Inr hm' \<Longrightarrow> tidy hm'"
proof (induction ks arbitrary: hm)
  case Nil
  then show ?case by simp
next
  case (Cons k ks)
  from Cons.prems(2) obtain hm1 where p: "put hm k = Inr hm1" and r: "put_all hm1 ks = Inr hm'"
    by (cases "put hm k") simp_all
  from tidy_put [OF Cons.prems(1) p] r show ?case by (rule Cons.IH)
qed

lemma tidy_reinsert: "tidy hm \<Longrightarrow> reinsert hm old k = Inr hm' \<Longrightarrow> tidy hm'"
proof (induction hm old k rule: reinsert.induct)
  case (1 hm oldTable)
  then show ?case by simp
next
  case (2 hm k)
  then show ?case by simp
next
  case (3 hm curList rest k)
  from "3.prems"(2) obtain hm1 where p: "put_all hm curList = Inr hm1"
    and r: "reinsert hm1 rest k = Inr hm'"
    by (cases "put_all hm curList") simp_all
  from tidy_put_all [OF "3.prems"(1) p] have "tidy hm1" .
  with p r show ?case by (intro "3.IH") simp_all
qed

lemma tidy_resizeTable: "resizeTable hm s = Inr hm' \<Longrightarrow> tidy hm'"
proof -
  assume a: "resizeTable hm s = Inr hm'"
  then have s: "0 \<le> s" by (auto simp: resizeTable_def split: if_splits)
  let ?hm1 = "hm\<lparr>n := s, table := Some (replicate (nat s) []), inserts := replicate (nat s) 0\<rparr>"
  have f: "tidy ?hm1" using s by (simp add: tidy_def counted_def buckets_def int32_def)
  show ?thesis
  proof (cases "table hm")
    case None
    with a f show ?thesis by (simp add: resizeTable_def split: if_splits)
  next
    case (Some old)
    with a obtain hm2 where "reinsert ?hm1 old (nat (n hm)) = Inr hm2" and "hm' = hm2"
      by (auto simp: resizeTable_def Let_def split: if_splits sum.splits)
    with f show ?thesis using tidy_reinsert by blast
  qed
qed

lemma setHashCodeMethod_fields:
  "n (setHashCodeMethod hm m) = n hm \<and> table (setHashCodeMethod hm m) = table hm
   \<and> inserts (setHashCodeMethod hm m) = inserts hm"
  by (simp add: setHashCodeMethod_def Let_def)

lemma tidy_setHashCodeMethod: "tidy hm \<Longrightarrow> tidy (setHashCodeMethod hm m)"
  by (simp add: tidy_def counted_def buckets_def setHashCodeMethod_fields split: option.splits)

lemma built_tidy: "built hm \<Longrightarrow> tidy hm"
proof (induction rule: built.induct)
  case built_ctor
  show ?case by (simp add: tidy_def counted_def buckets_def HashMap_ctor_def)
next
  case (built_put hm key hm')
  then show ?case using tidy_put by blast
next
  case (built_erase hm key hm')
  then show ?case using tidy_erase by blast
next
  case (built_resize hm s hm')
  then show ?case using tidy_resizeTable by blast
next
  case (built_method hm m)
  from built_method.IH show ?case by (rule tidy_setHashCodeMethod)
qed

lemma reachable_built: "reachable hm \<Longrightarrow> built hm"
proof (induction rule: reachable.induct)
  case reachable_ctor
  show ?case by (rule built_ctor)
next
  case (reachable_put hm key hm')
  then show ?case using built_put by blast
next
  case (reachable_erase hm key hm')
  then show ?case using built_erase by blast
next
  case (reachable_rehash hm m s hm')
  from reachable_rehash.IH have "built (setHashCodeMethod hm m)" by (rule built_method)
  then show ?case using reachable_rehash.hyps(2) by (rule built_resize)
qed

section \<open>Set semantics, lookup and resizing\<close>


subsection \<open>Insertion\<close>

lemma put_twice:
  "(case put hm key of Inl e \<Rightarrow> Inl e | Inr hm' \<Rightarrow> put hm' key) = put hm key"
proof (cases "put hm key")
  case (Inl e)
  then show ?thesis by simp
next
  case (Inr hm')
  from put_Inr [OF Inr] obtain i bs where h: "hash hm key = Inr i" "table hm = Some bs"
    "0 \<le> i" "i < int (length bs)"
    and c: "if key \<in> set (bs ! nat i) then hm' = hm
          else i < int (length (inserts hm))
             \<and> hm' = hm\<lparr>table := Some (bs[nat i := bs ! nat i @ [key]]),
                        inserts := (inserts hm)[nat i := int32 (inserts hm ! nat i + 1)]\<rparr>"
    by blast
  have "put hm' key = Inr hm'"
  proof (cases "key \<in> set (bs ! nat i)")
    case True
    with c Inr show ?thesis by simp
  next
    case False
    with c have hm': "hm' = hm\<lparr>table := Some (bs[nat i := bs ! nat i @ [key]]),
                        inserts := (inserts hm)[nat i := int32 (inserts hm ! nat i + 1)]\<rparr>"
      by simp
    have "hash hm' key = Inr i" using h(1) hash_cong [of hm' hm key] by (simp add: hm')
    then have "find_key hm' key = Inr i"
      using h by (simp add: find_key_def bucket_at_def hm')
    then show ?thesis using h(3) by (simp add: put_def)
  qed
  with Inr show ?thesis by simp
qed

text \<open>
  C4, as amended. For every key and every table, \<open>put\<close> called twice gives what \<open>put\<close>
  called once gives: the same chains in the same order and the same counters, or the same
  failure. In every table that the operations build, a key occurs at most once in a
  chain. In every table built from a new object by \<open>put\<close>, \<open>erase\<close> and resizes, where
  the hash code method changes only together with a resize, a key occurs in at most one
  chain as well.
\<close>

theorem put_set_semantics:
  "(case put hm key of Inl e \<Rightarrow> Inl e | Inr hm' \<Rightarrow> put hm' key) = put hm key
   \<and> (built hm \<longrightarrow> list_all distinct (buckets hm))
   \<and> (reachable hm \<longrightarrow> distinct (concat (buckets hm)))"
proof -
  have "list_all distinct (buckets hm)" if "built hm"
    using built_tidy [OF that] by (simp add: tidy_def list_all_iff)
  then show ?thesis using put_twice reachable_sound sound_distinct by blast
qed

theorem put_set_semantics_witness:
  "reachable \<lparr>HashCodeMethod = simple, n = 5, table = Some [[''dog''], [''cat''], [], [], []],
              inserts = [1, 1, 0, 0, 0]\<rparr>
   \<and> distinct (concat (buckets
        \<lparr>HashCodeMethod = simple, n = 5, table = Some [[''dog''], [''cat''], [], [], []],
         inserts = [1, 1, 0, 0, 0]\<rparr>))
   \<and> built \<lparr>HashCodeMethod = simple, n = 5, table = Some [[''dog''], [''cat''], [], [], []],
              inserts = [1, 1, 0, 0, 0]\<rparr>
   \<and> list_all distinct (buckets
        \<lparr>HashCodeMethod = simple, n = 5, table = Some [[''dog''], [''cat''], [], [], []],
         inserts = [1, 1, 0, 0, 0]\<rparr>)
   \<and> put \<lparr>HashCodeMethod = simple, n = 5, table = Some [[''dog''], [], [], [], []],
          inserts = [1, 0, 0, 0, 0]\<rparr> ''cat''
       = Inr \<lparr>HashCodeMethod = simple, n = 5, table = Some [[''dog''], [''cat''], [], [], []],
              inserts = [1, 1, 0, 0, 0]\<rparr>
   \<and> put \<lparr>HashCodeMethod = simple, n = 5, table = Some [[''dog''], [''cat''], [], [], []],
          inserts = [1, 1, 0, 0, 0]\<rparr> ''cat''
       = Inr \<lparr>HashCodeMethod = simple, n = 5, table = Some [[''dog''], [''cat''], [], [], []],
              inserts = [1, 1, 0, 0, 0]\<rparr>"
proof -
  let ?t0 = "\<lparr>HashCodeMethod = simple, n = 5, table = Some [[], [], [], [], []],
              inserts = [0, 0, 0, 0, 0]\<rparr>"
  let ?t1 = "\<lparr>HashCodeMethod = simple, n = 5, table = Some [[''dog''], [], [], [], []],
              inserts = [1, 0, 0, 0, 0]\<rparr>"
  let ?t2 = "\<lparr>HashCodeMethod = simple, n = 5, table = Some [[''dog''], [''cat''], [], [], []],
              inserts = [1, 1, 0, 0, 0]\<rparr>"
  have r0: "resizeTable (setHashCodeMethod HashMap_ctor ''simple'') 5 = Inr ?t0" by code_simp
  have p1: "put ?t0 ''dog'' = Inr ?t1" by code_simp
  have p2: "put ?t1 ''cat'' = Inr ?t2" by code_simp
  have "reachable ?t0" using reachable_ctor r0 by (rule reachable_rehash)
  then have "reachable ?t1" using p1 by (rule reachable_put)
  then have r: "reachable ?t2" using p2 by (rule reachable_put)
  then have b: "built ?t2" by (rule reachable_built)
  from put_set_semantics [where hm = ?t2 and key = "''cat''"] r
  have d: "distinct (concat (buckets ?t2))" by blast
  from put_set_semantics [where hm = ?t2 and key = "''cat''"] b
  have l: "list_all distinct (buckets ?t2)" by blast
  from put_set_semantics [where hm = ?t1 and key = "''cat''"] p2 have "put ?t2 ''cat'' = Inr ?t2"
    by simp
  with r d b l p2 show ?thesis by blast
qed

text \<open>
  The claim as it stands, that in every table a key occurs in at most one chain, fails
  after a change of the hash code method without resize: the key \<open>a\<close>, put into bucket 0
  of five under the Simple code, is put again into bucket 2 under the Cyclic code.
\<close>

theorem put_after_method_change_duplicates:
  "put \<lparr>HashCodeMethod = simple, n = 5, table = Some [[], [], [], [], []],
        inserts = [0, 0, 0, 0, 0]\<rparr> ''a''
     = Inr \<lparr>HashCodeMethod = simple, n = 5, table = Some [[''a''], [], [], [], []],
            inserts = [1, 0, 0, 0, 0]\<rparr>
   \<and> setHashCodeMethod \<lparr>HashCodeMethod = simple, n = 5, table = Some [[''a''], [], [], [], []],
        inserts = [1, 0, 0, 0, 0]\<rparr> ''cyclic''
     = \<lparr>HashCodeMethod = cyclic, n = 5, table = Some [[''a''], [], [], [], []],
        inserts = [1, 0, 0, 0, 0]\<rparr>
   \<and> put \<lparr>HashCodeMethod = cyclic, n = 5, table = Some [[''a''], [], [], [], []],
        inserts = [1, 0, 0, 0, 0]\<rparr> ''a''
     = Inr \<lparr>HashCodeMethod = cyclic, n = 5, table = Some [[''a''], [], [''a''], [], []],
            inserts = [1, 0, 1, 0, 0]\<rparr>
   \<and> \<not> distinct (concat (buckets
        \<lparr>HashCodeMethod = cyclic, n = 5, table = Some [[''a''], [], [''a''], [], []],
         inserts = [1, 0, 1, 0, 0]\<rparr>))"
  by code_simp

subsection \<open>Lookup\<close>

text \<open>
  C10, as amended. In a table with \<open>n > 0\<close> buckets where \<open>hash(key)\<close> is a non-negative
  index \<open>i\<close>, as it is for every key whose hash code is not \<open>-306783393\<close>, \<open>find\<close>
  returns \<open>i\<close> when the key is in chain \<open>i\<close> and \<open>-1\<close> when it is not. Whatever \<open>find\<close> returns is \<open>-1\<close> or the non-negative index of a chain that
  holds the key, so that \<open>-1\<close> is its only negative result. When every stored key sits
  in the chain that its hash selects, \<open>-1\<close> means that no chain holds the key. \<open>find\<close>
  returns an index and nothing else: the table is not changed.
\<close>

theorem find_key_result:
  "(well_formed hm \<and> 0 < n hm \<and> hashCode hm key \<noteq> - 306783393 \<longrightarrow>
       (\<exists>i. hash hm key = Inr i \<and> 0 \<le> i \<and> i < n hm))
   \<and> (well_formed hm \<and> 0 < n hm \<and> hash hm key = Inr i \<and> 0 \<le> i \<longrightarrow>
       find_key hm key = Inr (if key \<in> set (buckets hm ! nat i) then i else - 1))
   \<and> (find_key hm key = Inr r \<longrightarrow>
       r = - 1 \<or> (0 \<le> r \<and> r < int (length (buckets hm)) \<and> key \<in> set (buckets hm ! nat r)))
   \<and> (placed hm \<and> find_key hm key = Inr (- 1) \<longrightarrow> key \<notin> set (concat (buckets hm)))"
proof -
  have v: "\<exists>i. hash hm key = Inr i \<and> 0 \<le> i \<and> i < n hm"
    if "0 < n hm" "hashCode hm key \<noteq> - 306783393"
    using that by (rule hash_valid)
  have a: "find_key hm key = Inr (if key \<in> set (buckets hm ! nat i) then i else - 1)"
    if w: "well_formed hm" "0 < n hm" "hash hm key = Inr i" "0 \<le> i"
  proof -
    from w(1) obtain bs where bs: "table hm = Some bs" "int (length bs) = n hm"
      by (auto simp: well_formed_def split: option.splits)
    from hash_less [OF w(2,3)] bs have "i < int (length bs)" by simp
    from find_key_eq [OF w(3) bs(1) w(4) this] bs show ?thesis by (simp add: buckets_def)
  qed
  have b: "r = - 1 \<or> (0 \<le> r \<and> r < int (length (buckets hm)) \<and> key \<in> set (buckets hm ! nat r))"
    if f: "find_key hm key = Inr r"
    using find_key_Inr [OF f] by (auto simp: buckets_def split: if_splits)
  have c: "key \<notin> set (concat (buckets hm))"
    if p: "placed hm" and f: "find_key hm key = Inr (- 1)"
  proof
    assume "key \<in> set (concat (buckets hm))"
    then obtain chain where "chain \<in> set (buckets hm)" "key \<in> set chain" by auto
    then obtain j where j: "j < length (buckets hm)" "key \<in> set (buckets hm ! j)"
      unfolding in_set_conv_nth [of chain] by blast
    with p have hj: "hash hm key = Inr (int j)" by (simp add: placed_iff)
    from find_key_Inr [OF f] obtain i bs where h: "hash hm key = Inr i" "table hm = Some bs"
      "- 1 = (if key \<in> set (bs ! nat i) then i else - 1)" "0 \<le> i"
      by blast
    from h hj have "nat i = j" "buckets hm = bs" by (simp_all add: buckets_def)
    with j h show False by (auto split: if_splits)
  qed
  from v a b c show ?thesis by blast
qed

theorem find_key_result_witness:
  "well_formed \<lparr>HashCodeMethod = simple, n = 5, table = Some [[''dog''], [''cat''], [], [], []],
       inserts = [1, 1, 0, 0, 0]\<rparr>
   \<and> 0 < n \<lparr>HashCodeMethod = simple, n = 5, table = Some [[''dog''], [''cat''], [], [], []],
       inserts = [1, 1, 0, 0, 0]\<rparr>
   \<and> hashCode \<lparr>HashCodeMethod = simple, n = 5, table = Some [[''dog''], [''cat''], [], [], []],
       inserts = [1, 1, 0, 0, 0]\<rparr> ''cat'' = 24
   \<and> hash \<lparr>HashCodeMethod = simple, n = 5, table = Some [[''dog''], [''cat''], [], [], []],
       inserts = [1, 1, 0, 0, 0]\<rparr> ''cat'' = Inr 1
   \<and> find_key \<lparr>HashCodeMethod = simple, n = 5, table = Some [[''dog''], [''cat''], [], [], []],
       inserts = [1, 1, 0, 0, 0]\<rparr> ''cat'' = Inr 1
   \<and> ''cat'' \<in> set (buckets \<lparr>HashCodeMethod = simple, n = 5,
       table = Some [[''dog''], [''cat''], [], [], []], inserts = [1, 1, 0, 0, 0]\<rparr> ! nat 1)
   \<and> placed \<lparr>HashCodeMethod = simple, n = 5, table = Some [[''dog''], [''cat''], [], [], []],
       inserts = [1, 1, 0, 0, 0]\<rparr>
   \<and> find_key \<lparr>HashCodeMethod = simple, n = 5, table = Some [[''dog''], [''cat''], [], [], []],
       inserts = [1, 1, 0, 0, 0]\<rparr> ''pig'' = Inr (- 1)
   \<and> ''pig'' \<notin> set (concat (buckets
       \<lparr>HashCodeMethod = simple, n = 5, table = Some [[''dog''], [''cat''], [], [], []],
        inserts = [1, 1, 0, 0, 0]\<rparr>))"
proof -
  let ?t = "\<lparr>HashCodeMethod = simple, n = 5, table = Some [[''dog''], [''cat''], [], [], []],
       inserts = [1, 1, 0, 0, 0]\<rparr>"
  have w: "well_formed ?t" by (simp add: well_formed_def)
  have m: "0 < n ?t" by simp
  have k: "hashCode ?t ''cat'' = 24" by code_simp
  have h: "hash ?t ''cat'' = Inr 1" by code_simp
  have p: "placed ?t" by code_simp
  have f: "find_key ?t ''pig'' = Inr (- 1)" by code_simp
  note inst = find_key_result [where hm = ?t and key = "''cat''" and i = 1 and r = 1]
  from inst w m k h have "\<exists>i. hash ?t ''cat'' = Inr i \<and> 0 \<le> i \<and> i < n ?t" by simp
  from inst w m h have c: "find_key ?t ''cat'' = Inr 1" by (simp add: buckets_def)
  from inst c have e: "''cat'' \<in> set (buckets ?t ! nat 1)" by simp
  from find_key_result [where hm = ?t and key = "''pig''"] p f
  have a: "''pig'' \<notin> set (concat (buckets ?t))" by blast
  from w m k h c e p f a show ?thesis by blast
qed

text \<open>
  The claim as it stands, that \<open>find\<close> returns a non-negative index whenever the key is
  present, fails after a change of the hash code method without resize: the key \<open>a\<close> is
  in bucket 0, the Cyclic code sends the lookup to bucket 2, and \<open>find\<close> returns \<open>-1\<close>.
\<close>

theorem find_key_misses_stale_key:
  "put \<lparr>HashCodeMethod = simple, n = 5, table = Some [[], [], [], [], []],
        inserts = [0, 0, 0, 0, 0]\<rparr> ''a''
     = Inr \<lparr>HashCodeMethod = simple, n = 5, table = Some [[''a''], [], [], [], []],
            inserts = [1, 0, 0, 0, 0]\<rparr>
   \<and> setHashCodeMethod \<lparr>HashCodeMethod = simple, n = 5, table = Some [[''a''], [], [], [], []],
        inserts = [1, 0, 0, 0, 0]\<rparr> ''cyclic''
     = \<lparr>HashCodeMethod = cyclic, n = 5, table = Some [[''a''], [], [], [], []],
        inserts = [1, 0, 0, 0, 0]\<rparr>
   \<and> find_key \<lparr>HashCodeMethod = cyclic, n = 5, table = Some [[''a''], [], [], [], []],
        inserts = [1, 0, 0, 0, 0]\<rparr> ''a'' = Inr (- 1)
   \<and> ''a'' \<in> set (concat (buckets
        \<lparr>HashCodeMethod = cyclic, n = 5, table = Some [[''a''], [], [], [], []],
         inserts = [1, 0, 0, 0, 0]\<rparr>))"
  by code_simp

subsection \<open>Resizing\<close>

text \<open>
  C5. The claim: for every table reached by a sequence of puts and every \<open>m > 0\<close>,
  \<open>resize(m)\<close> leaves \<open>m\<close> buckets with every key still present. The code: under the
  Cyclic code the key \<open>xsxjswa\<close> is put into bucket 0 of a table of three buckets; the
  resize to seven buckets re-inserts it with the hash \<open>-3\<close> and accesses \<open>table[-3]\<close>
  (the defect of \<open>hashCompress\<close> shown above). On a table none of whose keys has the
  hash code \<open>-306783393\<close> the resize does what the claim says, by
  \<open>resizeTable_keeps_keys\<close> above.
\<close>

theorem resizeTable_loses_key:
  "resizeTable (setHashCodeMethod HashMap_ctor ''cyclic'') 3
     = Inr \<lparr>HashCodeMethod = cyclic, n = 3, table = Some [[], [], []], inserts = [0, 0, 0]\<rparr>
   \<and> put \<lparr>HashCodeMethod = cyclic, n = 3, table = Some [[], [], []], inserts = [0, 0, 0]\<rparr>
        ''xsxjswa''
     = Inr \<lparr>HashCodeMethod = cyclic, n = 3, table = Some [[''xsxjswa''], [], []],
            inserts = [1, 0, 0]\<rparr>
   \<and> find_key \<lparr>HashCodeMethod = cyclic, n = 3, table = Some [[''xsxjswa''], [], []],
            inserts = [1, 0, 0]\<rparr> ''xsxjswa'' = Inr 0
   \<and> resizeTable \<lparr>HashCodeMethod = cyclic, n = 3, table = Some [[''xsxjswa''], [], []],
            inserts = [1, 0, 0]\<rparr> 7 = Inl OutOfBounds"
  by code_simp

section \<open>The statistics report\<close>


lemma accumulate_int32: "accumulate xs (int32 y) = int32 (y + sum_list xs)"
proof (induction xs arbitrary: y)
  case Nil
  then show ?case by simp
next
  case (Cons x xs)
  have "accumulate (x # xs) (int32 y) = accumulate xs (int32 (y + x))"
    by (simp add: int32_add_left)
  also have "\<dots> = int32 (y + x + sum_list xs)" by (rule Cons.IH)
  finally show ?case by (simp add: add.assoc)
qed

lemma accumulate_exact:
  "INT_MIN \<le> sum_list xs \<Longrightarrow> sum_list xs \<le> INT_MAX \<Longrightarrow> accumulate xs 0 = sum_list xs"
  using accumulate_int32 [of xs 0] by (simp add: int32_id) (simp add: int32_def)

lemma max_element_Max: "max_element largest xs = Max (set (largest # xs))"
proof (induction xs arbitrary: largest)
  case Nil
  then show ?case by simp
next
  case (Cons x xs)
  have "Max (set (largest # x # xs)) = Max (set ((if largest < x then x else largest) # xs))"
  proof (cases xs)
    case Nil
    then show ?thesis by (simp add: max_def)
  next
    case (Cons y ys)
    then have "Max (insert largest (insert x (set xs))) = max largest (max x (Max (set xs)))"
      by simp
    moreover from Cons have
      "Max (insert (if largest < x then x else largest) (set xs))
         = max (if largest < x then x else largest) (Max (set xs))"
      by simp
    ultimately show ?thesis by (simp add: max_def)
  qed
  with Cons.IH [of "if largest < x then x else largest"] show ?case by simp
qed

lemma collisions_sum_le:
  "\<forall>c \<in> set xs. (0::int) \<le> c \<Longrightarrow>
     0 \<le> (\<Sum>c\<leftarrow>xs. max (c - 1) 0) \<and> (\<Sum>c\<leftarrow>xs. max (c - 1) 0) \<le> sum_list xs"
  by (induction xs) (auto simp: max_def)

lemma counts_sum_nonneg: "\<forall>c \<in> set xs. (0::int) \<le> c \<Longrightarrow> 0 \<le> sum_list xs"
  by (induction xs) auto

lemma count_le_sum: "\<forall>c \<in> set xs. (0::int) \<le> c \<Longrightarrow> x \<in> set xs \<Longrightarrow> x \<le> sum_list xs"
proof (induction xs)
  case Nil
  then show ?case by simp
next
  case (Cons a xs)
  then have "0 \<le> a" "0 \<le> sum_list xs" by (simp_all add: counts_sum_nonneg)
  with Cons show ?case by auto
qed

lemma collisions_map:
  assumes "\<forall>c \<in> set xs. 0 \<le> c" "sum_list xs \<le> INT_MAX"
  shows "map (\<lambda>c. max (int32 (c - 1)) 0) xs = map (\<lambda>c. max (c - 1) 0) xs"
proof (rule map_cong [OF refl])
  fix c assume c: "c \<in> set xs"
  with assms have "0 \<le> c" "c \<le> INT_MAX"
    using count_le_sum [of xs c] by auto
  then have "int32 (c - 1) = c - 1" by (intro int32_id) (simp_all add: INT_MIN_def INT_MAX_def)
  then show "max (int32 (c - 1)) 0 = max (c - 1) 0" by simp
qed

lemma counted_exact:
  assumes "counted hm" "int (length (concat (buckets hm))) \<le> INT_MAX"
  shows "inserts hm = map (\<lambda>chain. int (length chain)) (buckets hm)"
proof -
  have "int32 (int (length chain)) = int (length chain)" if "chain \<in> set (buckets hm)" for chain
  proof -
    from that have "length chain \<le> sum_list (map length (buckets hm))"
      by (simp add: member_le_sum_list)
    then have "int (length chain) \<le> int (length (concat (buckets hm)))"
      by (simp add: length_concat)
    with assms(2) show ?thesis by (intro int32_id) (simp_all add: INT_MIN_def)
  qed
  with assms(1) show ?thesis by (simp add: counted_def)
qed

lemma sum_list_lengths: "sum_list (map (\<lambda>chain. int (length chain)) xss) = int (length (concat xss))"
  by (induction xss) simp_all

text \<open>
  C9, as amended. For every table with \<open>n > 0\<close> buckets and as many counters, none of
  them negative and their sum at most \<open>INT_MAX\<close>, the report of \<open>printStats\<close> has the
  size \<open>n\<close>, the sum of the counters as number of inserts, that sum divided by \<open>n\<close> as
  load factor, the sum of \<open>max (c - 1) 0\<close> over the counters \<open>c\<close> as collisions, and the
  largest counter as maximal bucket. Every table with \<open>n > 0\<close> buckets that the operations
  build and that holds at most \<open>INT_MAX\<close> keys is such a table, its counters being the
  lengths of its chains. With 5 buckets and the counters 1, 1, 3, 1, 1 the report is
  7 inserts, load factor 1.4, 2 collisions and maximal bucket 3.
\<close>

theorem printStats_values:
  "(0 < n hm \<and> int (length (inserts hm)) = n hm
      \<and> (\<forall>c \<in> set (inserts hm). 0 \<le> c) \<and> sum_list (inserts hm) \<le> INT_MAX
    \<longrightarrow> printStats hm
        = Inr \<lparr>stat_size = n hm,
               stat_inserts = sum_list (inserts hm),
               stat_load_factor = real_of_int (sum_list (inserts hm)) / real_of_int (n hm),
               stat_collisions = (\<Sum>c\<leftarrow>inserts hm. max (c - 1) 0),
               stat_max_bucket = Max (set (inserts hm))\<rparr>)
   \<and> (built hm \<and> 0 < n hm \<and> int (length (concat (buckets hm))) \<le> INT_MAX
    \<longrightarrow> inserts hm = map (\<lambda>chain. int (length chain)) (buckets hm)
      \<and> printStats hm
        = Inr \<lparr>stat_size = n hm,
               stat_inserts = sum_list (inserts hm),
               stat_load_factor = real_of_int (sum_list (inserts hm)) / real_of_int (n hm),
               stat_collisions = (\<Sum>c\<leftarrow>inserts hm. max (c - 1) 0),
               stat_max_bucket = Max (set (inserts hm))\<rparr>)
   \<and> printStats \<lparr>HashCodeMethod = simple, n = 5,
                  table = Some [[''a''], [''b''], [''c'', ''h'', ''m''], [''d''], [''e'']],
                  inserts = [1, 1, 3, 1, 1]\<rparr>
       = Inr \<lparr>stat_size = 5, stat_inserts = 7, stat_load_factor = 1.4,
              stat_collisions = 2, stat_max_bucket = 3\<rparr>"
proof -
  have g: "printStats hm
        = Inr \<lparr>stat_size = n hm,
               stat_inserts = sum_list (inserts hm),
               stat_load_factor = real_of_int (sum_list (inserts hm)) / real_of_int (n hm),
               stat_collisions = (\<Sum>c\<leftarrow>inserts hm. max (c - 1) 0),
               stat_max_bucket = Max (set (inserts hm))\<rparr>"
    if a: "0 < n hm" "int (length (inserts hm)) = n hm"
      "\<forall>c \<in> set (inserts hm). 0 \<le> c" "sum_list (inserts hm) \<le> INT_MAX"
  proof -
    let ?cs = "inserts hm"
    from a have t: "take (nat (n hm)) ?cs = ?cs" by simp
    from a obtain c cs where cs: "?cs = c # cs" by (cases ?cs) auto
    have s0: "0 \<le> sum_list ?cs" using a(3) by (rule counts_sum_nonneg)
    then have s: "accumulate ?cs 0 = sum_list ?cs"
      using a(4) by (intro accumulate_exact) (simp_all add: INT_MIN_def)
    have m: "map (\<lambda>c. max (int32 (c - 1)) 0) ?cs = map (\<lambda>c. max (c - 1) 0) ?cs"
      using a(3,4) by (rule collisions_map)
    have k: "accumulate (map (\<lambda>c. max (c - 1) 0) ?cs) 0 = (\<Sum>c\<leftarrow>?cs. max (c - 1) 0)"
      using collisions_sum_le [OF a(3)] a(4)
      by (intro accumulate_exact) (simp_all add: INT_MIN_def)
    have x: "max_element c cs = Max (set ?cs)" by (simp add: max_element_Max cs)
    have "printStats hm
        = Inr \<lparr>stat_size = n hm,
               stat_inserts = accumulate ?cs 0,
               stat_load_factor = real_of_int (accumulate ?cs 0) / real_of_int (n hm),
               stat_collisions = accumulate (map (\<lambda>c. max (int32 (c - 1)) 0) ?cs) 0,
               stat_max_bucket = max_element c cs\<rparr>"
      unfolding printStats_def Let_def t using a(1,2) by (simp add: cs)
    then show ?thesis by (simp only: s m k x)
  qed
  have b: "inserts hm = map (\<lambda>chain. int (length chain)) (buckets hm)
      \<and> printStats hm
        = Inr \<lparr>stat_size = n hm,
               stat_inserts = sum_list (inserts hm),
               stat_load_factor = real_of_int (sum_list (inserts hm)) / real_of_int (n hm),
               stat_collisions = (\<Sum>c\<leftarrow>inserts hm. max (c - 1) 0),
               stat_max_bucket = Max (set (inserts hm))\<rparr>"
    if h: "built hm" "0 < n hm" "int (length (concat (buckets hm))) \<le> INT_MAX"
  proof -
    from built_tidy [OF h(1)] have c: "counted hm"
      and l: "case table hm of None \<Rightarrow> n hm = 0 | Some bs \<Rightarrow> int (length bs) = n hm"
      by (simp_all add: tidy_def)
    from l h(2) have lb: "int (length (buckets hm)) = n hm"
      by (cases "table hm") (simp_all add: buckets_def)
    from counted_exact [OF c h(3)]
    have i: "inserts hm = map (\<lambda>chain. int (length chain)) (buckets hm)" .
    from i lb have "int (length (inserts hm)) = n hm" by simp
    moreover from i have "\<forall>c \<in> set (inserts hm). 0 \<le> c" by auto
    moreover from i h(3) have "sum_list (inserts hm) \<le> INT_MAX"
      by (simp add: sum_list_lengths)
    ultimately show ?thesis using g h(2) i by blast
  qed
  have e: "printStats \<lparr>HashCodeMethod = simple, n = 5,
                  table = Some [[''a''], [''b''], [''c'', ''h'', ''m''], [''d''], [''e'']],
                  inserts = [1, 1, 3, 1, 1]\<rparr>
       = Inr \<lparr>stat_size = 5, stat_inserts = 7, stat_load_factor = 1.4,
              stat_collisions = 2, stat_max_bucket = 3\<rparr>"
    by (simp add: printStats_def int32_def)
  from g b e show ?thesis by blast
qed

theorem printStats_values_witness:
  "0 < (3::int) \<and> int (length [2, 0, 1 :: int]) = 3 \<and> sum_list [2, 0, 1 :: int] \<le> INT_MAX
   \<and> printStats \<lparr>HashCodeMethod = simple, n = 3, table = Some [[''b'', ''e''], [], [''a'']],
                  inserts = [2, 0, 1]\<rparr>
       = Inr \<lparr>stat_size = 3, stat_inserts = 3, stat_load_factor = 1,
              stat_collisions = 1, stat_max_bucket = 2\<rparr>
   \<and> built \<lparr>HashCodeMethod = simple, n = 5, table = Some [[''dog''], [''cat''], [], [], []],
             inserts = [1, 1, 0, 0, 0]\<rparr>
   \<and> int (length (concat (buckets
        \<lparr>HashCodeMethod = simple, n = 5, table = Some [[''dog''], [''cat''], [], [], []],
         inserts = [1, 1, 0, 0, 0]\<rparr>))) \<le> INT_MAX
   \<and> printStats \<lparr>HashCodeMethod = simple, n = 5, table = Some [[''dog''], [''cat''], [], [], []],
                  inserts = [1, 1, 0, 0, 0]\<rparr>
       = Inr \<lparr>stat_size = 5, stat_inserts = 2, stat_load_factor = 0.4,
              stat_collisions = 0, stat_max_bucket = 1\<rparr>"
proof -
  let ?t0 = "\<lparr>HashCodeMethod = simple, n = 5, table = Some [[], [], [], [], []],
              inserts = [0, 0, 0, 0, 0]\<rparr>"
  let ?t1 = "\<lparr>HashCodeMethod = simple, n = 5, table = Some [[''dog''], [], [], [], []],
              inserts = [1, 0, 0, 0, 0]\<rparr>"
  let ?t2 = "\<lparr>HashCodeMethod = simple, n = 5, table = Some [[''dog''], [''cat''], [], [], []],
              inserts = [1, 1, 0, 0, 0]\<rparr>"
  have h: "sum_list [2, 0, 1 :: int] \<le> INT_MAX" by (simp add: INT_MAX_def)
  from h printStats_values
    [of "\<lparr>HashCodeMethod = simple, n = 3, table = Some [[''b'', ''e''], [], [''a'']],
          inserts = [2, 0, 1]\<rparr>"]
  have a: "printStats \<lparr>HashCodeMethod = simple, n = 3, table = Some [[''b'', ''e''], [], [''a'']],
                  inserts = [2, 0, 1]\<rparr>
       = Inr \<lparr>stat_size = 3, stat_inserts = 3, stat_load_factor = 1,
              stat_collisions = 1, stat_max_bucket = 2\<rparr>"
    by simp
  have r0: "resizeTable HashMap_ctor 5 = Inr ?t0" by code_simp
  have p1: "put ?t0 ''dog'' = Inr ?t1" by code_simp
  have p2: "put ?t1 ''cat'' = Inr ?t2" by code_simp
  have "built ?t0" using built_ctor r0 by (rule built_resize)
  then have "built ?t1" using p1 by (rule built_put)
  then have bt: "built ?t2" using p2 by (rule built_put)
  have k: "int (length (concat (buckets ?t2))) \<le> INT_MAX"
    by (simp add: buckets_def INT_MAX_def)
  from printStats_values [of ?t2] bt k
  have b: "printStats ?t2
       = Inr \<lparr>stat_size = 5, stat_inserts = 2, stat_load_factor = 0.4,
              stat_collisions = 0, stat_max_bucket = 1\<rparr>"
    by simp
  from h a bt k b show ?thesis by simp
qed

subsection \<open>Counters beyond the range of \<open>int\<close>\<close>


lemma a_keys_distinct: "distinct (a_keys m) \<and> length (a_keys m) = m"
proof -
  have "inj_on (\<lambda>k. replicate k (CHR ''a'')) (set [0..<m])"
  proof (rule inj_onI)
    fix x y assume "replicate x (CHR ''a'') = replicate y (CHR ''a'')"
    then have "length (replicate x (CHR ''a'')) = length (replicate y (CHR ''a''))" by simp
    then show "x = y" by simp
  qed
  then show ?thesis by (simp add: a_keys_def distinct_map)
qed

lemma c_rem_one: "c_rem a 1 = 0"
  by (simp add: c_rem_def)

lemma hash_one_bucket: "n hm = 1 \<Longrightarrow> hash hm key = Inr 0"
  by (simp add: hash_def hashCompress_def c_rem_one)

lemma one_bucket_puts:
  assumes "distinct ks"
  shows "\<exists>hm'. put_all \<lparr>HashCodeMethod = simple, n = 1, table = Some [[]], inserts = [0]\<rparr> ks
            = Inr hm'
          \<and> n hm' = 1 \<and> inserts hm' = [int32 (int (length ks))]"
proof -
  let ?t = "\<lparr>HashCodeMethod = simple, n = 1, table = Some [[]], inserts = [0]\<rparr>"
  have w: "well_formed ?t" by (simp add: well_formed_def)
  have c: "counted ?t" by (simp add: counted_def buckets_def int32_def)
  have t: "tidy ?t" using c by (simp add: tidy_def buckets_def)
  have p: "0 < n ?t" by simp
  have v: "\<forall>k \<in> set ks. \<exists>i. hash ?t k = Inr i \<and> 0 \<le> i"
    by (simp add: hash_one_bucket)
  from put_all_keeps [OF w c p v]
  obtain hm' where r: "put_all ?t ks = Inr hm'" and k: "well_formed hm'" "counted hm'"
    "n hm' = 1" and s: "set (concat (buckets hm')) = set ks"
    by (auto simp: buckets_def)
  from tidy_put_all [OF t r] have d: "\<forall>chain \<in> set (buckets hm'). distinct chain"
    by (simp add: tidy_def)
  from k(1,3) have "length (buckets hm') = 1"
    by (auto simp: well_formed_def buckets_def split: option.splits)
  then obtain chain where b: "buckets hm' = [chain]"
    by (cases "buckets hm'") auto
  with d s have "distinct chain" "set chain = set ks" by simp_all
  with assms have "length chain = length ks"
    by (metis distinct_card)
  with k(2) b have "inserts hm' = [int32 (int (length ks))]" by (simp add: counted_def)
  with r k(3) show ?thesis by blast
qed

text \<open>
  The claim as it stands, for every table with \<open>n > 0\<close>, fails on a table that the
  operations build: one bucket, into which \<open>2^31\<close> different keys are put. The counter
  of the bucket has wrapped to \<open>INT_MIN\<close>, and \<open>printStats\<close>, whose subtraction
  \<open>inserts[i] - 1\<close> wraps in turn, reports 2147483647 collisions, where
  \<open>max (c - 1) 0\<close> of the counter \<open>c\<close> is 0.
\<close>

theorem printStats_overflow:
  "resizeTable HashMap_ctor 1
     = Inr \<lparr>HashCodeMethod = simple, n = 1, table = Some [[]], inserts = [0]\<rparr>
   \<and> map_sum id inserts
       (put_all \<lparr>HashCodeMethod = simple, n = 1, table = Some [[]], inserts = [0]\<rparr>
                (a_keys 2147483648))
     = Inr [- 2147483648]
   \<and> stats_of
       (put_all \<lparr>HashCodeMethod = simple, n = 1, table = Some [[]], inserts = [0]\<rparr>
                (a_keys 2147483648))
     = Inr \<lparr>stat_size = 1, stat_inserts = - 2147483648, stat_load_factor = - 2147483648,
            stat_collisions = 2147483647, stat_max_bucket = - 2147483648\<rparr>"
proof -
  have r: "resizeTable HashMap_ctor 1
     = Inr \<lparr>HashCodeMethod = simple, n = 1, table = Some [[]], inserts = [0]\<rparr>"
    by code_simp
  from a_keys_distinct [of 2147483648] have d: "distinct (a_keys 2147483648)"
    and l: "length (a_keys 2147483648) = 2147483648" by blast+
  from one_bucket_puts [OF d] obtain hm' where
    p: "put_all \<lparr>HashCodeMethod = simple, n = 1, table = Some [[]], inserts = [0]\<rparr>
          (a_keys 2147483648) = Inr hm'"
    and n1: "n hm' = 1" and i: "inserts hm' = [int32 (int (length (a_keys 2147483648)))]"
    by blast
  have "int32 (int (length (a_keys 2147483648))) = - 2147483648"
    unfolding l by (simp add: int32_def)
  with i have i': "inserts hm' = [- 2147483648]" by simp
  have s: "printStats hm'
     = Inr \<lparr>stat_size = 1, stat_inserts = - 2147483648, stat_load_factor = - 2147483648,
            stat_collisions = 2147483647, stat_max_bucket = - 2147483648\<rparr>"
    by (simp add: printStats_def n1 i' int32_def)
  from r p i' s show ?thesis by (simp add: stats_of_def)
qed

end
